theory Spec2Isabelle
  imports Complex_Main "HOL-Library.AList" "HOL-Library.Sublist"
begin

section \<open>Python primitives used by image_export.py\<close>

text \<open>
  Python's \<open>int(x)\<close> on a fraction truncates toward zero. Fractions (\<open>portion\<close>,
  \<open>discard\<close>) are modelled as exact rationals; the rounding of binary floating point is
  not modelled, and the concrete inputs used below (\<open>0.5\<close>) are exact in both.
\<close>

definition py_int :: "rat \<Rightarrow> int" where
  "py_int x = (if 0 \<le> x then \<lfloor>x\<rfloor> else \<lceil>x\<rceil>)"

text \<open>
  Slice bounds as Python and numpy normalise them: a negative bound counts from the end,
  and every bound is clamped to the range \<open>0..n\<close>.
\<close>

definition slice_index :: "nat \<Rightarrow> int \<Rightarrow> nat" where
  "slice_index n i = (if i < 0 then nat (max 0 (i + int n)) else min n (nat i))"

text \<open>\<open>xs[lo:hi]\<close>, \<open>xs[:k]\<close> and \<open>xs[k:]\<close>.\<close>

definition py_slice :: "int \<Rightarrow> int \<Rightarrow> 'a list \<Rightarrow> 'a list" where
  "py_slice lo hi xs =
     (let a = slice_index (length xs) lo; b = slice_index (length xs) hi
      in take (b - a) (drop a xs))"

definition py_upto :: "int \<Rightarrow> 'a list \<Rightarrow> 'a list" where
  "py_upto k xs = take (slice_index (length xs) k) xs"

definition py_from :: "int \<Rightarrow> 'a list \<Rightarrow> 'a list" where
  "py_from k xs = drop (slice_index (length xs) k) xs"

text \<open>
  \<open>x in s\<close> on two strings is the substring test; \<open>name.endswith(t)\<close> is
  \<^const>\<open>suffix\<close>.
\<close>

fun str_in :: "string \<Rightarrow> string \<Rightarrow> bool" where
  "str_in x [] = (x = [])"
| "str_in x (c # s) = (prefix x (c # s) \<or> str_in x s)"

text \<open>
  \<open>s.replace(old, new)\<close>: every non-overlapping occurrence, scanning from the left. For an
  empty \<open>old\<close> Python puts \<open>new\<close> before every character and at the end.
\<close>

function str_replace :: "string \<Rightarrow> string \<Rightarrow> string \<Rightarrow> string" where
  "str_replace old new s =
     (if old = [] then new @ concat (map (\<lambda>c. c # new) s)
      else if s = [] then []
      else if prefix old s then new @ str_replace old new (drop (length old) s)
      else hd s # str_replace old new (tl s))"
  by pat_completeness auto
termination
  by (relation "measure (\<lambda>(old, new, s). length s)") auto

text \<open>\<open>"%d" % i\<close> for a natural number: its decimal digits.\<close>

fun show_nat :: "nat \<Rightarrow> string" where
  "show_nat n =
     (if n < 10 then [char_of (48 + n)]
      else show_nat (n div 10) @ [char_of (48 + n mod 10)])"

declare show_nat.simps [simp del]

section \<open>Raster frames and center_crop\<close>

text \<open>
  A frame is the list of its rows, each row the list of its pixels; \<open>img.shape[0]\<close> is the
  number of rows and \<open>img.shape[1]\<close> the length of a row.
\<close>

type_synonym 'a frame = "'a list list"

definition shape0 :: "'a frame \<Rightarrow> nat" where
  "shape0 img = length img"

definition shape1 :: "'a frame \<Rightarrow> nat" where
  "shape1 img = (case img of [] \<Rightarrow> 0 | row # _ \<Rightarrow> length row)"

definition rectangular :: "nat \<Rightarrow> nat \<Rightarrow> 'a frame \<Rightarrow> bool" where
  "rectangular H W img = (length img = H \<and> list_all (\<lambda>row. length row = W) img)"

definition center_crop :: "'a frame \<Rightarrow> int \<Rightarrow> int \<Rightarrow> 'a frame" where
  "center_crop img h w =
     (let x = int (shape1 img) div 2 - w div 2;
          y = int (shape0 img) div 2 - h div 2
      in map (py_slice x (x + w)) (py_slice y (y + h) img))"

section \<open>The filesystem\<close>

text \<open>
  A path is the list of its components (\<open>os.path.join(d, name)\<close> is \<open>d @ [name]\<close>,
  \<open>os.path.basename\<close> the last component), the content of a file is a string of bytes, and
  the filesystem is an association list from paths to entries, in directory-listing order.
  The empty path is the root directory, which always exists. Symbolic links are not modelled.
\<close>

type_synonym path = "string list"
type_synonym content = string

datatype entry = File content | Dir

type_synonym fs = "(path \<times> entry) list"

datatype error =
    FileNotFoundError | NotADirectoryError | IsADirectoryError | FileExistsError
  | SameFileError | OSError | AssertionError | ParseError | ValueError | Cv2Error

definition lookup :: "fs \<Rightarrow> path \<Rightarrow> entry option" where
  "lookup fs p = (if p = [] then Some Dir else map_of fs p)"

definition os_path_exists :: "fs \<Rightarrow> path \<Rightarrow> bool" where
  "os_path_exists fs p = (lookup fs p \<noteq> None)"

definition os_path_isfile :: "fs \<Rightarrow> path \<Rightarrow> bool" where
  "os_path_isfile fs p = (case lookup fs p of Some (File c) \<Rightarrow> True | _ \<Rightarrow> False)"

definition os_path_isdir :: "fs \<Rightarrow> path \<Rightarrow> bool" where
  "os_path_isdir fs p = (lookup fs p = Some Dir)"

definition os_path_basename :: "path \<Rightarrow> string" where
  "os_path_basename p = (if p = [] then [] else last p)"

text \<open>\<open>os.listdir\<close>: the names directly under a directory; it raises on anything else.\<close>

definition children :: "fs \<Rightarrow> path \<Rightarrow> string list" where
  "children fs p = map (\<lambda>(q, e). last q) (filter (\<lambda>(q, e). q \<noteq> [] \<and> butlast q = p) fs)"

definition os_listdir :: "fs \<Rightarrow> path \<Rightarrow> error + string list" where
  "os_listdir fs p =
     (case lookup fs p of
        None \<Rightarrow> Inl FileNotFoundError
      | Some (File c) \<Rightarrow> Inl NotADirectoryError
      | Some Dir \<Rightarrow> Inr (children fs p))"

text \<open>
  \<open>os.makedirs(p)\<close> creates \<open>p\<close> and every missing ancestor. It raises when \<open>p\<close> exists
  already and when an existing ancestor is not a directory; nothing is created then.
\<close>

definition os_makedirs :: "fs \<Rightarrow> path \<Rightarrow> error + fs" where
  "os_makedirs fs p =
     (if os_path_exists fs p then Inl FileExistsError
      else if list_ex (\<lambda>q. os_path_isfile fs q) (prefixes p) then Inl NotADirectoryError
      else Inr (fold (\<lambda>q fs'. if os_path_exists fs' q then fs' else AList.update q Dir fs')
                  (prefixes p) fs))"

text \<open>\<open>os.remove(p)\<close> deletes a regular file and raises on anything else.\<close>

definition os_remove :: "fs \<Rightarrow> path \<Rightarrow> (error \<times> fs) + fs" where
  "os_remove fs p =
     (case lookup fs p of
        None \<Rightarrow> Inl (FileNotFoundError, fs)
      | Some Dir \<Rightarrow> Inl (IsADirectoryError, fs)
      | Some (File c) \<Rightarrow> Inr (AList.delete p fs))"

text \<open>
  \<open>shutil.copyfile(s, d)\<close> opens \<open>s\<close> for reading and \<open>d\<close> for writing (truncating it)
  and copies the bytes. The write can fail partway (disk full, I/O error): \<open>flt d = Some k\<close>
  says that the write to \<open>d\<close> fails after \<open>k\<close> bytes, which leaves a truncated \<open>d\<close> behind;
  \<open>flt d = None\<close> that it succeeds. \<open>flt\<close> stands for the environment.
\<close>

definition shutil_copyfile :: "(path \<Rightarrow> nat option) \<Rightarrow> fs \<Rightarrow> path \<Rightarrow> path \<Rightarrow> (error \<times> fs) + fs" where
  "shutil_copyfile flt fs s d =
     (if s = d then Inl (SameFileError, fs)
      else case lookup fs s of
        None \<Rightarrow> Inl (FileNotFoundError, fs)
      | Some Dir \<Rightarrow> Inl (IsADirectoryError, fs)
      | Some (File c) \<Rightarrow>
          if os_path_isdir fs d then Inl (IsADirectoryError, fs)
          else if \<not> os_path_isdir fs (butlast d) then Inl (FileNotFoundError, fs)
          else (case flt d of
                  None \<Rightarrow> Inr (AList.update d (File c) fs)
                | Some k \<Rightarrow> Inl (OSError, AList.update d (File (take k c)) fs)))"

text \<open>A \<open>for\<close> loop over a list whose body may raise: the first exception ends the loop.\<close>

fun for_each :: "('s \<Rightarrow> 'a \<Rightarrow> ('e \<times> 's) + 's) \<Rightarrow> 'a list \<Rightarrow> 's \<Rightarrow> ('e \<times> 's) + 's" where
  "for_each body [] st = Inr st"
| "for_each body (x # xs) st =
     (case body st x of Inl err \<Rightarrow> Inl err | Inr st' \<Rightarrow> for_each body xs st')"

section \<open>crawl\<close>

text \<open>
  \<open>os.walk(top)\<close>, top down: it lists \<open>top\<close>, yields \<open>(top, dirs, nondirs)\<close> and then
  walks each directory of \<open>dirs\<close> in turn. With the default \<open>onerror=None\<close> a failing
  listing is ignored: a \<open>top\<close> that does not exist, or is not a directory, yields nothing.
\<close>

function os_walk :: "fs \<Rightarrow> path \<Rightarrow> (path \<times> string list \<times> string list) list" where
  "os_walk fs tp =
     (case os_listdir fs tp of
        Inl err \<Rightarrow> []
      | Inr names \<Rightarrow>
          (tp, filter (\<lambda>n. os_path_isdir fs (tp @ [n])) names,
               filter (\<lambda>n. \<not> os_path_isdir fs (tp @ [n])) names)
          # concat (map (\<lambda>d. os_walk fs (tp @ [d]))
                        (filter (\<lambda>n. os_path_isdir fs (tp @ [n])) names)))"
  by pat_completeness auto
termination
proof (relation "measure (\<lambda>(fs, tp). length (filter (\<lambda>(q, e). strict_prefix tp q) fs))",
       goal_cases)
  case 1
  show ?case by simp
next
  case (2 fs tp names d)
  have shrink: "length (filter P xs) < length (filter Q xs)"
    if "\<And>x. P x \<Longrightarrow> Q x" "x \<in> set xs" "Q x" "\<not> P x"
    for P Q :: "(path \<times> entry) \<Rightarrow> bool" and xs x
  proof -
    have "filter P xs = filter P (filter Q xs)"
      using that(1) by (auto intro: filter_cong)
    moreover have "length (filter P (filter Q xs)) < length (filter Q xs)"
      using that(2-4) by (intro length_filter_less[where x = x]) auto
    ultimately show ?thesis by simp
  qed
  from 2(1) have "names = children fs tp"
    by (auto simp: os_listdir_def split: option.splits entry.splits)
  with 2(2) obtain q e where mem: "(q, e) \<in> set fs" "q \<noteq> []" "butlast q = tp" "last q = d"
    by (auto simp: children_def)
  then have q: "q = tp @ [d]"
    by (metis append_butlast_last_id)
  have "length (filter (\<lambda>(q, e). strict_prefix (tp @ [d]) q) fs)
          < length (filter (\<lambda>(q, e). strict_prefix tp q) fs)"
  proof (rule shrink[where x = "(tp @ [d], e)"])
    show "(tp @ [d], e) \<in> set fs" using mem(1) q by simp
  qed (auto simp: strict_prefix_def prefix_def)
  then show ?case by simp
qed

text \<open>
  \<open>crawl\<close> is a generator; its result here is the list it yields. It has no failure of
  its own: the only I/O is that of \<open>os.walk\<close>.
\<close>

definition crawl :: "fs \<Rightarrow> path \<Rightarrow> string \<Rightarrow> path list" where
  "crawl fs rootdir file_type =
     concat (map (\<lambda>(p, subdirs, files).
                    map (\<lambda>n. p @ [n]) (filter (\<lambda>n. suffix file_type n) files))
                 (os_walk fs rootdir))"

section \<open>The frame exporter\<close>

text \<open>
  The container decoder is external: \<open>decode\<close> stands for \<open>HifFileReader.read\<close>,
  \<open>get_sections_of_type\<close>, \<open>matlum_float_to_rgb\<close> and \<open>cv2.cvtColor\<close> together, from
  the bytes of a container to the frames of its views (\<open>None\<close>: not decodable).
\<close>

definition read_views :: "(content \<Rightarrow> 'a frame list option) \<Rightarrow> fs \<Rightarrow> path \<Rightarrow> error + 'a frame list" where
  "read_views decode fs hif_path =
     (case lookup fs hif_path of
        None \<Rightarrow> Inl FileNotFoundError
      | Some Dir \<Rightarrow> Inl IsADirectoryError
      | Some (File c) \<Rightarrow> (case decode c of None \<Rightarrow> Inl ParseError | Some views \<Rightarrow> Inr views))"

text \<open>
  \<open>cv2.imwrite(p, img)\<close> with the encoder \<open>enc\<close>: it replaces whatever file is at \<open>p\<close>.
  It raises on an empty image; where the file cannot be opened for writing it returns
  \<open>False\<close> without raising, and \<open>export\<close> ignores the returned value.
\<close>

definition cv2_imwrite :: "('a frame \<Rightarrow> content) \<Rightarrow> fs \<Rightarrow> path \<Rightarrow> 'a frame \<Rightarrow> (error \<times> fs) + fs" where
  "cv2_imwrite enc fs p img =
     (if shape0 img = 0 \<or> shape1 img = 0 then Inl (Cv2Error, fs)
      else if p \<noteq> [] \<and> os_path_isdir fs (butlast p) \<and> \<not> os_path_isdir fs p
           then Inr (AList.update p (File (enc img)) fs)
      else Inr fs)"

text \<open>\<open>"%s-%d.jpg" % (os.path.basename(hif_path), view_idx)\<close>\<close>

definition frame_name :: "path \<Rightarrow> nat \<Rightarrow> string" where
  "frame_name hif_path view_idx = os_path_basename hif_path @ ''-'' @ show_nat view_idx @ ''.jpg''"

text \<open>The body of the loop over \<open>enumerate(views_matlum)\<close>.\<close>

definition export_view :: "('a frame \<Rightarrow> content) \<Rightarrow> path \<Rightarrow> path \<Rightarrow> fs \<Rightarrow> nat \<times> 'a frame \<Rightarrow> (error \<times> fs) + fs" where
  "export_view enc hif_path save_path fs v =
     (case v of (view_idx, rgb) \<Rightarrow>
        cv2_imwrite enc fs (save_path @ [frame_name hif_path view_idx])
          (if view_idx = 0 then center_crop rgb 590 440 else rgb))"

definition export :: "(content \<Rightarrow> 'a frame list option) \<Rightarrow> ('a frame \<Rightarrow> content) \<Rightarrow> fs \<Rightarrow> path \<Rightarrow> path \<Rightarrow> (error \<times> fs) + (nat \<times> fs)" where
  "export decode enc fs hif_path save_path =
     (if os_path_exists fs (save_path @ [frame_name hif_path 0]) then Inr (0, fs)
      else if os_path_exists fs (save_path @ [''train'', frame_name hif_path 0]) then Inr (0, fs)
      else if os_path_exists fs (save_path @ [''test'', frame_name hif_path 0]) then Inr (0, fs)
      else case read_views decode fs hif_path of
             Inl err \<Rightarrow> Inl (err, fs)
           | Inr views \<Rightarrow>
               (case for_each (export_view enc hif_path save_path) (enumerate 0 views) fs of
                  Inl x \<Rightarrow> Inl x
                | Inr fs' \<Rightarrow> Inr (length views, fs')))"

section \<open>The merge/copy engine\<close>

text \<open>The body of the loop of \<open>copy_files\<close>, for one name of \<open>files\<close>.\<close>

definition copy_file :: "(path \<Rightarrow> nat option) \<Rightarrow> path \<Rightarrow> path \<Rightarrow> bool \<Rightarrow> bool \<Rightarrow> fs \<Rightarrow> string \<Rightarrow> (error \<times> fs) + fs" where
  "copy_file flt src dest delete_at_source overwrite fs file =
     (if os_path_exists fs (dest @ [file]) \<and> \<not> overwrite then Inr fs
      else if os_path_isfile fs (src @ [file]) then
        (case shutil_copyfile flt fs (src @ [file]) (dest @ [file]) of
           Inl x \<Rightarrow> Inl x
         | Inr fs' \<Rightarrow> if delete_at_source then os_remove fs' (src @ [file]) else Inr fs')
      else Inr fs)"

text \<open>\<open>os.makedirs(dest)\<close> under \<open>try\<close> with a bare \<open>except\<close>: every failure is ignored.\<close>

definition try_makedirs :: "fs \<Rightarrow> path \<Rightarrow> fs" where
  "try_makedirs fs dest = (case os_makedirs fs dest of Inl err \<Rightarrow> fs | Inr fs' \<Rightarrow> fs')"

definition copy_files :: "(path \<Rightarrow> nat option) \<Rightarrow> fs \<Rightarrow> path \<Rightarrow> string list \<Rightarrow> path \<Rightarrow> bool \<Rightarrow> bool \<Rightarrow> (error \<times> fs) + fs" where
  "copy_files flt fs src files dest delete_at_source overwrite =
     for_each (copy_file flt src dest delete_at_source overwrite) files (try_makedirs fs dest)"

definition move_files :: "(path \<Rightarrow> nat option) \<Rightarrow> fs \<Rightarrow> path \<Rightarrow> string list \<Rightarrow> path \<Rightarrow> (error \<times> fs) + fs" where
  "move_files flt fs src files dest = copy_files flt fs src files dest True False"

section \<open>The shuffle/split engine\<close>

text \<open>
  Lines 155 to 164 of \<open>split_exported_sd3_hif\<close>, on the shuffled listing: the train part,
  the test part and \<open>files2del\<close>. As in the source, \<open>files\<close> is cut first and
  \<open>files2del\<close> is then sliced from the list that was cut.
\<close>

definition split_lists :: "rat \<Rightarrow> rat \<Rightarrow> 'a list \<Rightarrow> 'a list \<times> 'a list \<times> 'a list" where
  "split_lists portion discard listing =
     (let (files, files2del) =
            (if discard < 1 then
               (let files = py_upto (py_int (of_nat (length listing) * (1 - discard))) listing
                in (files, py_from (py_int (of_nat (length files) * (1 - discard))) files))
             else
               (let files = py_upto (py_int discard) listing
                in (files, py_from (py_int discard) files)));
          first_half = py_upto (py_int (of_nat (length files) * portion)) files;
          second_half = py_from (py_int (of_nat (length files) * portion)) files
      in (first_half, second_half, files2del))"

text \<open>The last loop: a discarded name is removed where it still is a regular file.\<close>

definition delete_file :: "path \<Rightarrow> fs \<Rightarrow> string \<Rightarrow> (error \<times> fs) + fs" where
  "delete_file src fs file =
     (if os_path_isfile fs (src @ [file]) then os_remove fs (src @ [file]) else Inr fs)"

text \<open>
  \<open>random.seed(k); random.shuffle(files)\<close> is \<open>shuffle k\<close>, a parameter: the generator is
  not modelled. The listing and both shuffles come before the assertion on \<open>discard\<close>,
  which is taken as executed (Python run without \<open>-O\<close>).
\<close>

definition split_exported_sd3_hif :: "(nat \<Rightarrow> string list \<Rightarrow> string list) \<Rightarrow> (path \<Rightarrow> nat option) \<Rightarrow> fs \<Rightarrow> path \<Rightarrow> rat \<Rightarrow> rat \<Rightarrow> (error \<times> fs) + fs" where
  "split_exported_sd3_hif shuffle flt fs src portion discard =
     (case os_listdir fs src of
        Inl err \<Rightarrow> Inl (err, fs)
      | Inr names \<Rightarrow>
          (let listing = shuffle 50 (shuffle 47 names) in
           if \<not> discard > 0 then Inl (AssertionError, fs)
           else case split_lists portion discard listing of
             (first_half, second_half, files2del) \<Rightarrow>
               (case move_files flt fs src first_half (src @ [''train'']) of
                  Inl x \<Rightarrow> Inl x
                | Inr fs1 \<Rightarrow>
                    (case move_files flt fs1 src second_half (src @ [''test'']) of
                       Inl x \<Rightarrow> Inl x
                     | Inr fs2 \<Rightarrow> for_each (delete_file src) files2del fs2))))"

section \<open>Annotations and the classifiers\<close>

record bndbox =
  xmin :: int
  ymin :: int
  xmax :: int
  ymax :: int

record object =
  name :: string
  bbox :: bndbox

record annotation =
  filename :: string
  width :: int
  height :: int
  depth :: int
  objects :: "object list"

text \<open>\<open>os.path.basename(file).replace(".jpg", ".xml")\<close>\<close>

definition xml_name :: "path \<Rightarrow> string" where
  "xml_name file = str_replace ''.jpg'' ''.xml'' (os_path_basename file)"

text \<open>
  \<open>parse_voc_xml\<close>: the XML library is external, and \<open>et\<close> stands for
  \<open>ET.parse\<close> together with the extraction of the fields, from the text of a file to the
  annotation (\<open>None\<close>: the text is malformed or a required field is missing).
\<close>

definition parse_voc_xml :: "(content \<Rightarrow> annotation option) \<Rightarrow> fs \<Rightarrow> path \<Rightarrow> error + annotation" where
  "parse_voc_xml et fs xml_path =
     (case lookup fs xml_path of
        None \<Rightarrow> Inl FileNotFoundError
      | Some Dir \<Rightarrow> Inl IsADirectoryError
      | Some (File s) \<Rightarrow> (case et s of None \<Rightarrow> Inl ParseError | Some a \<Rightarrow> Inr a))"

text \<open>
  The body of the two loops of \<open>copy_sixray_easy\<close> (binary mode): the text of the
  annotation file is read as a string, and the file is abnormal when some anomaly class
  occurs in that text. The state is the pair of lists \<open>(normal, abnormal)\<close>.
\<close>

definition segregate_file :: "fs \<Rightarrow> path \<Rightarrow> string list \<Rightarrow> path list \<times> path list \<Rightarrow> path \<Rightarrow> (error \<times> path list \<times> path list) + path list \<times> path list" where
  "segregate_file fs xml_dir anomaly_classes st file =
     (case st of (normal, abnormal) \<Rightarrow>
        (case lookup fs (xml_dir @ [xml_name file]) of
           None \<Rightarrow> Inl (FileNotFoundError, st)
         | Some Dir \<Rightarrow> Inl (IsADirectoryError, st)
         | Some (File s) \<Rightarrow>
             if list_ex (\<lambda>x. str_in x s) anomaly_classes
             then Inr (normal, abnormal @ [file])
             else Inr (normal @ [file], abnormal)))"

definition segregate :: "fs \<Rightarrow> path \<Rightarrow> string list \<Rightarrow> path list \<Rightarrow> (error \<times> path list \<times> path list) + path list \<times> path list" where
  "segregate fs xml_dir anomaly_classes files =
     for_each (segregate_file fs xml_dir anomaly_classes) files ([], [])"

text \<open>
  A \<open>defaultdict\<close> of lists, as an association list in the order of first insertion:
  \<open>d[k].append(v)\<close> and the list under a key (empty when the key is absent).
\<close>

type_synonym buckets = "(string \<times> path list) list"

definition bucket_append :: "string \<Rightarrow> path \<Rightarrow> buckets \<Rightarrow> buckets" where
  "bucket_append k v d =
     (case map_of d k of None \<Rightarrow> d @ [(k, [v])] | Some vs \<Rightarrow> AList.update k (vs @ [v]) d)"

definition bucket :: "buckets \<Rightarrow> string \<Rightarrow> path list" where
  "bucket d k = (case map_of d k of None \<Rightarrow> [] | Some vs \<Rightarrow> vs)"

text \<open>
  The body of the loop of \<open>classify_files\<close> (per-class mode); the state is
  \<open>(normal_files, abnormal_files)\<close>. Python walks the set \<open>unique_cls\<close> in an order of
  its own, here that of \<^const>\<open>remdups\<close>; each class has its own bucket, so the lists in
  the buckets do not depend on that order.
\<close>

definition classify_file :: "(content \<Rightarrow> annotation option) \<Rightarrow> fs \<Rightarrow> path \<Rightarrow> string list \<Rightarrow> buckets \<times> buckets \<Rightarrow> path \<Rightarrow> (error \<times> buckets \<times> buckets) + buckets \<times> buckets" where
  "classify_file et fs xml_dir anomaly_classes st file =
     (case st of (normal_files, abnormal_files) \<Rightarrow>
        (case parse_voc_xml et fs (xml_dir @ [xml_name file]) of
           Inl err \<Rightarrow> Inl (err, st)
         | Inr a \<Rightarrow>
             (let classes = map name (objects a);
                  unique_cls = remdups classes
              in if list_ex (\<lambda>x. x \<in> set unique_cls) anomaly_classes
                 then Inr (normal_files,
                           fold (\<lambda>cls d. if cls \<in> set anomaly_classes
                                          then bucket_append cls file d else d)
                                unique_cls abnormal_files)
                 else Inr (fold (\<lambda>cls d. bucket_append cls file d) unique_cls normal_files,
                           abnormal_files))))"

definition classify_files :: "(content \<Rightarrow> annotation option) \<Rightarrow> fs \<Rightarrow> path \<Rightarrow> path list \<Rightarrow> string list \<Rightarrow> (error \<times> buckets \<times> buckets) + buckets \<times> buckets" where
  "classify_files et fs xml_dir files anomaly_classes =
     for_each (classify_file et fs xml_dir anomaly_classes) files ([], [])"

text \<open>
  The set \<open>unique_cls\<close> that the loop body computes for a file: the class names of the
  objects of its annotation (empty where the annotation cannot be parsed, and the loop
  raises).
\<close>

definition unique_cls :: "(content \<Rightarrow> annotation option) \<Rightarrow> fs \<Rightarrow> path \<Rightarrow> path \<Rightarrow> string set" where
  "unique_cls et fs xml_dir file =
     (case parse_voc_xml et fs (xml_dir @ [xml_name file]) of
        Inl err \<Rightarrow> {}
      | Inr a \<Rightarrow> set (map name (objects a)))"

text \<open>
  One copy loop of \<open>copy_sixray_folder_split\<close>:
  \<open>for cls, files in d.items(): copy_files(src, list(map(os.path.basename, files)), dest / cls)\<close>.
\<close>

definition copy_class_folders :: "(path \<Rightarrow> nat option) \<Rightarrow> fs \<Rightarrow> path \<Rightarrow> buckets \<Rightarrow> path \<Rightarrow> (error \<times> fs) + fs" where
  "copy_class_folders flt fs src d dest =
     for_each (\<lambda>fs' (cls, files).
                 copy_files flt fs' src (map os_path_basename files) (dest @ [cls]) False False)
              d fs"

section \<open>The mask generator\<close>

text \<open>
  A mask is a frame of 8-bit values. \<open>Image.new("L", (w, h), 0)\<close> raises on a negative
  size. \<open>ImageDraw.rectangle((x0, y0, x1, y1), fill)\<close> belongs to the imaging library: it fills
  the pixels with \<open>x0 \<le> x \<le> x1\<close> and \<open>y0 \<le> y \<le> y1\<close>, both corners included, clipped to
  the image, and raises when \<open>x1 < x0\<close> or \<open>y1 < y0\<close>.
\<close>

definition image_new :: "int \<times> int \<Rightarrow> nat \<Rightarrow> error + nat frame" where
  "image_new image_size v =
     (case image_size of (w, h) \<Rightarrow>
        if w < 0 \<or> h < 0 then Inl ValueError else Inr (replicate (nat h) (replicate (nat w) v)))"

definition draw_rectangle :: "nat frame \<Rightarrow> int \<times> int \<times> int \<times> int \<Rightarrow> nat \<Rightarrow> error + nat frame" where
  "draw_rectangle msk box fill =
     (case box of (x0, y0, x1, y1) \<Rightarrow>
        if x1 < x0 \<or> y1 < y0 then Inl ValueError
        else Inr (map (\<lambda>(y, row).
                         map (\<lambda>(x, v). if x0 \<le> int x \<and> int x \<le> x1 \<and> y0 \<le> int y \<and> int y \<le> y1
                                        then fill else v)
                             (enumerate 0 row))
                      (enumerate 0 msk)))"

fun draw_all :: "nat frame \<Rightarrow> (int \<times> int \<times> int \<times> int) list \<Rightarrow> error + nat frame" where
  "draw_all msk [] = Inr msk"
| "draw_all msk (b # bs) =
     (case draw_rectangle msk b 255 of Inl err \<Rightarrow> Inl err | Inr msk' \<Rightarrow> draw_all msk' bs)"

definition generate_mask_from_bbox :: "(int \<times> int \<times> int \<times> int) list \<Rightarrow> int \<times> int \<Rightarrow> error + nat frame" where
  "generate_mask_from_bbox bboxes image_size =
     (case image_new image_size 0 of Inl err \<Rightarrow> Inl err | Inr msk \<Rightarrow> draw_all msk bboxes)"

text \<open>\<open>mask.getpixel((x, y))\<close> inside the image.\<close>

definition getpixel :: "nat frame \<Rightarrow> nat \<times> nat \<Rightarrow> nat" where
  "getpixel msk xy = (case xy of (x, y) \<Rightarrow> msk ! y ! x)"

section \<open>Properties of center_crop\<close>

lemma py_slice_window:
  assumes "a + k \<le> length xs"
  shows "py_slice (int a) (int a + int k) xs = take k (drop a xs)"
proof -
  have "slice_index (length xs) (int a) = a"
    using assms by (simp add: slice_index_def)
  moreover have "slice_index (length xs) (int a + int k) = a + k"
    using assms by (simp add: slice_index_def nat_add_distrib)
  ultimately show ?thesis by (simp add: py_slice_def)
qed

lemma center_crop_590_440:
  assumes len: "length img = H" and rows: "\<And>row. row \<in> set img \<Longrightarrow> length row = W"
    and H: "590 \<le> H" and W: "440 \<le> W"
  shows "center_crop img 590 440
           = map (\<lambda>row. take 440 (drop (W div 2 - 220) row)) (take 590 (drop (H div 2 - 295) img))"
proof -
  from len H obtain r0 rs where img: "img = r0 # rs" by (cases img) auto
  then have s1: "shape1 img = W" using rows by (simp add: shape1_def)
  have s0: "shape0 img = H" by (simp add: shape0_def len)
  define y where "y = H div 2 - 295"
  define x where "x = W div 2 - 220"
  have yb: "295 \<le> H div 2" "y + 590 \<le> H" using H by (auto simp: y_def)
  have xb: "220 \<le> W div 2" "x + 440 \<le> W" using W by (auto simp: x_def)
  have yi: "int H div 2 - 295 = int y" "295 + int H div 2 = int y + 590"
    using yb by (simp_all add: y_def zdiv_int)
  have xi: "int W div 2 - 220 = int x" "220 + int W div 2 = int x + 440"
    using xb by (simp_all add: x_def zdiv_int)
  have "py_slice (int y) (int y + 590) img = take 590 (drop y img)"
    using yb len py_slice_window[of y 590 img] by simp
  moreover have "map (py_slice (int x) (int x + 440)) (take 590 (drop y img))
      = map (\<lambda>row. take 440 (drop x row)) (take 590 (drop y img))"
  proof (rule map_cong[OF refl])
    fix row assume "row \<in> set (take 590 (drop y img))"
    then have "row \<in> set img" by (meson in_set_dropD in_set_takeD)
    then have "length row = W" by (rule rows)
    then show "py_slice (int x) (int x + 440) row = take 440 (drop x row)"
      using xb py_slice_window[of x 440 row] by simp
  qed
  ultimately show ?thesis
    by (simp add: center_crop_def s0 s1 Let_def yi xi x_def y_def)
qed

text \<open>
  C7, amended. For every frame of \<open>H\<close> rows and \<open>W\<close> columns with \<open>590 \<le> H\<close> and
  \<open>440 \<le> W\<close>, center-cropping to height 590 and width 440 returns exactly 590 rows of 440
  columns, and the pixel at row \<open>r\<close>, column \<open>c\<close> of the crop is the pixel at row
  \<open>H div 2 - 295 + r\<close>, column \<open>W div 2 - 220 + c\<close> of the frame.
\<close>

theorem center_crop_window:
  assumes "rectangular H W img" and "590 \<le> H" and "440 \<le> W"
  shows "rectangular 590 440 (center_crop img 590 440) \<and>
         (\<forall>r<590. \<forall>c<440. center_crop img 590 440 ! r ! c
              = img ! (H div 2 - 295 + r) ! (W div 2 - 220 + c))"
proof -
  from assms(1) have len: "length img = H"
    and rows: "\<And>row. row \<in> set img \<Longrightarrow> length row = W"
    by (auto simp: rectangular_def list_all_iff)
  have cc: "center_crop img 590 440
      = map (\<lambda>row. take 440 (drop (W div 2 - 220) row)) (take 590 (drop (H div 2 - 295) img))"
    by (rule center_crop_590_440[OF len rows assms(2,3)])
  have yb: "H div 2 - 295 + 590 \<le> H" and xb: "W div 2 - 220 + 440 \<le> W"
    using assms(2,3) by auto
  have r1: "rectangular 590 440 (center_crop img 590 440)"
  proof -
    have "length (center_crop img 590 440) = 590"
      unfolding cc using yb len by simp
    moreover have "length row = 440" if "row \<in> set (center_crop img 590 440)" for row
    proof -
      from that obtain r where "r \<in> set img" "row = take 440 (drop (W div 2 - 220) r)"
        unfolding cc by (auto dest: in_set_dropD in_set_takeD)
      then show ?thesis using rows[of r] xb by simp
    qed
    ultimately show ?thesis
      by (simp add: rectangular_def list_all_iff)
  qed
  have r2: "center_crop img 590 440 ! r ! c = img ! (H div 2 - 295 + r) ! (W div 2 - 220 + c)"
    if "r < 590" "c < 440" for r c
  proof -
    have "H div 2 - 295 + r < length img" using yb len that by simp
    then have "img ! (H div 2 - 295 + r) \<in> set img" by simp
    then have "length (img ! (H div 2 - 295 + r)) = W" by (rule rows)
    then show ?thesis
      unfolding cc using that yb xb len by simp
  qed
  from r1 r2 show ?thesis by blast
qed

theorem center_crop_window_witness:
  "rectangular 600 450 (map (\<lambda>r. map (\<lambda>c. (r, c)) [0..<450]) [0..<600]) \<and>
   rectangular 590 440 (center_crop (map (\<lambda>r. map (\<lambda>c. (r, c)) [0..<450]) [0..<600]) 590 440) \<and>
   center_crop (map (\<lambda>r. map (\<lambda>c. (r, c)) [0..<450]) [0..<600]) 590 440 ! 0 ! 0 = (5, 5)"
proof -
  have h: "rectangular 600 450 (map (\<lambda>r. map (\<lambda>c. (r, c)) [0..<450]) [0..<600])"
    by (simp add: rectangular_def list_all_iff)
  show ?thesis
    using h center_crop_window[OF h] by simp
qed

text \<open>
  C7 as stated fails on a frame smaller than the crop window: a 2 by 2 frame comes back
  whole, and of a frame of 589 rows (one less than the window) only the last row is
  returned, since the negative row origin \<open>-1\<close> counts from the end.
\<close>

theorem center_crop_small_frame_counterexample:
  "center_crop [[1, 2], [3, 4::nat]] 590 440 = [[1, 2], [3, 4]] \<and>
   length (center_crop (replicate 589 (replicate 440 (0::nat))) 590 440) = 1"
proof -
  have "(589::nat) = Suc 588" by simp
  then have "replicate 589 (replicate 440 (0::nat)) = replicate 440 0 # replicate 588 (replicate 440 0)"
    by (simp only: replicate_Suc)
  then have "shape1 (replicate 589 (replicate 440 (0::nat))) = 440"
    by (simp add: shape1_def)
  then show ?thesis
    by (simp add: center_crop_def py_slice_def slice_index_def shape0_def shape1_def[of "[_, _]"])
qed

section \<open>Properties of crawl\<close>

lemma os_walk_unlistable: "os_listdir fs d = Inl err \<Longrightarrow> os_walk fs d = []"
  by (subst os_walk.simps) simp

text \<open>
  C4, amended. For every root path that does not exist on the filesystem the crawler
  yields the empty sequence of paths and raises nothing: the failed listing is ignored by
  \<open>os.walk\<close>, and \<open>crawl\<close> has no check of its own.
\<close>

theorem crawl_missing_root_empty:
  "\<not> os_path_exists fs d \<Longrightarrow> crawl fs d file_type = []"
proof -
  assume "\<not> os_path_exists fs d"
  then have "os_listdir fs d = Inl FileNotFoundError"
    by (simp add: os_path_exists_def os_listdir_def)
  then have "os_walk fs d = []"
    by (rule os_walk_unlistable)
  then show ?thesis
    by (simp add: crawl_def)
qed

theorem crawl_missing_root_empty_witness:
  "\<not> os_path_exists [([''bags''], Dir), ([''bags'', ''a.hif''], File ''raw'')] [''nowhere'']
   \<and> crawl [([''bags''], Dir), ([''bags'', ''a.hif''], File ''raw'')] [''nowhere''] ''.hif'' = []"
proof -
  have h: "\<not> os_path_exists [([''bags''], Dir), ([''bags'', ''a.hif''], File ''raw'')] [''nowhere'']"
    by (simp add: os_path_exists_def lookup_def)
  show ?thesis
    using h crawl_missing_root_empty[OF h, of "''.hif''"] by simp
qed

text \<open>
  C4 as stated fails: on a filesystem without the root, the listing of the root raises
  \<open>FileNotFoundError\<close>, and the crawler still returns the empty sequence.
\<close>

theorem crawl_missing_root_counterexample:
  "os_listdir [([''bags''], Dir), ([''bags'', ''a.hif''], File ''raw'')] [''nowhere'']
     = Inl FileNotFoundError
   \<and> crawl [([''bags''], Dir), ([''bags'', ''a.hif''], File ''raw'')] [''nowhere''] ''.hif'' = []"
proof -
  have l: "os_listdir [([''bags''], Dir), ([''bags'', ''a.hif''], File ''raw'')] [''nowhere'']
     = Inl FileNotFoundError"
    by (simp add: os_listdir_def lookup_def)
  have "os_walk [([''bags''], Dir), ([''bags'', ''a.hif''], File ''raw'')] [''nowhere''] = []"
    using l by (subst os_walk.simps) simp
  with l show ?thesis
    by (simp add: crawl_def)
qed

section \<open>Properties of the shuffle/split engine\<close>

text \<open>
  C1, at a listing of four files with \<open>discard = 0.5\<close> and \<open>portion = 0.5\<close>: whatever the
  shuffled order \<open>[a, b, c, d]\<close> is, the code keeps \<open>[a, b]\<close>, and then takes
  \<open>files2del\<close> from the kept list: the discarded sequence is \<open>[b]\<close>, which is the test
  part, and \<open>c\<close> and \<open>d\<close> are in none of the three sequences.
\<close>

theorem split_lists_discards_from_kept:
  "split_lists (1 / 2) (1 / 2) [a, b, c, d] = ([a], [b], [b])"
  by (simp add: split_lists_def py_upto_def py_from_def py_int_def slice_index_def)

text \<open>
  C6, amended. With \<open>discard \<le> 0\<close> the call lists the source directory first and then
  fails on the assertion, before any file is moved or deleted: the filesystem is unchanged.
  Where the source directory cannot be listed, the error of the listing is raised instead
  of the assertion's.
\<close>

theorem split_rejects_nonpositive_discard:
  assumes "discard \<le> 0"
  shows "split_exported_sd3_hif shuffle flt fs src portion discard =
           Inl (if os_path_isdir fs src then AssertionError
                else if os_path_exists fs src then NotADirectoryError
                else FileNotFoundError, fs)"
  using assms
  by (auto simp: split_exported_sd3_hif_def os_listdir_def os_path_isdir_def os_path_exists_def
           split: option.splits entry.splits)

theorem split_rejects_nonpositive_discard_witness:
  "split_exported_sd3_hif (\<lambda>k xs. rev xs) (\<lambda>p. None)
      [([''exported''], Dir), ([''exported'', ''a.hif-0.jpg''], File ''v0'')]
      [''exported''] (4 / 5) 0
    = Inl (AssertionError, [([''exported''], Dir), ([''exported'', ''a.hif-0.jpg''], File ''v0'')])"
proof -
  have h: "(0::rat) \<le> 0" by simp
  show ?thesis
    using split_rejects_nonpositive_discard[OF h, of "\<lambda>k xs. rev xs" "\<lambda>p. None"
        "[([''exported''], Dir), ([''exported'', ''a.hif-0.jpg''], File ''v0'')]" "[''exported'']" "4 / 5"]
    by (simp add: os_path_isdir_def lookup_def)
qed

text \<open>
  C6 as stated fails: with \<open>discard = 0\<close> and a source directory that does not exist, the
  call fails in the listing, with \<open>FileNotFoundError\<close>: the directory is read before the
  precondition is checked.
\<close>

theorem split_lists_before_assert_counterexample:
  "split_exported_sd3_hif (\<lambda>k xs. xs) (\<lambda>p. None) [] [''exported''] (4 / 5) 0
     = Inl (FileNotFoundError, [])"
  by (simp add: split_exported_sd3_hif_def os_listdir_def lookup_def)

section \<open>Properties of the binary classifier\<close>

text \<open>
  C2, at an annotation whose only object is a knife and whose \<open>filename\<close> field is
  \<open>gun_0001.jpg\<close>, with the anomaly classes \<open>("gun",)\<close>: the class name occurs in the text
  of the annotation file, so the image is put on the abnormal list, although the set of its
  object class names, \<open>{knife}\<close>, does not meet the anomaly classes.
\<close>

theorem segregate_matches_raw_text:
  "segregate
     [([''sixray'', ''train'', ''Annotations'', ''gun_0001.xml''],
       File ''<annotation><filename>gun_0001.jpg</filename><size><width>100</width><height>100</height><depth>3</depth></size><object><name>knife</name><bndbox><xmin>10</xmin><ymin>10</ymin><xmax>50</xmax><ymax>50</ymax></bndbox></object></annotation>'')]
     [''sixray'', ''train'', ''Annotations'']
     [''gun'']
     [[''sixray'', ''train'', ''JPEGImages'', ''gun_0001.jpg'']]
   = Inr ([], [[''sixray'', ''train'', ''JPEGImages'', ''gun_0001.jpg'']])"
  by (simp add: segregate_def segregate_file_def xml_name_def os_path_basename_def lookup_def)

section \<open>Properties of the mask generator\<close>

lemma enumerate_map_upt: "enumerate 0 (map f [0..<n]) = map (\<lambda>i. (i, f i)) [0..<n]"
  by (rule nth_equalityI) (simp_all add: nth_enumerate_eq)

lemma draw_rectangle_raster:
  assumes "x0 \<le> x1" and "y0 \<le> y1"
  shows "draw_rectangle (map (\<lambda>y. map (\<lambda>x. f x y) [0..<W]) [0..<H]) (x0, y0, x1, y1) v
           = Inr (map (\<lambda>y. map (\<lambda>x. if x0 \<le> int x \<and> int x \<le> x1 \<and> y0 \<le> int y \<and> int y \<le> y1
                                      then v else f x y) [0..<W]) [0..<H])"
  using assms by (simp add: draw_rectangle_def enumerate_map_upt)

lemma draw_all_raster:
  assumes "list_all (\<lambda>(x0, y0, x1, y1). x0 \<le> x1 \<and> y0 \<le> y1) bboxes"
  shows "draw_all (map (\<lambda>y. map (\<lambda>x. f x y) [0..<W]) [0..<H]) bboxes
           = Inr (map (\<lambda>y. map (\<lambda>x. if list_ex (\<lambda>(x0, y0, x1, y1).
                                             x0 \<le> int x \<and> int x \<le> x1 \<and> y0 \<le> int y \<and> int y \<le> y1) bboxes
                                      then 255 else f x y) [0..<W]) [0..<H])"
  using assms
proof (induction bboxes arbitrary: f)
  case Nil
  show ?case by simp
next
  case (Cons b bs)
  obtain x0 y0 x1 y1 where b: "b = (x0, y0, x1, y1)" by (cases b) auto
  from Cons.prems b have wf: "x0 \<le> x1" "y0 \<le> y1" and rest: "list_all (\<lambda>(x0, y0, x1, y1). x0 \<le> x1 \<and> y0 \<le> y1) bs"
    by simp_all
  show ?case
    unfolding b draw_all.simps draw_rectangle_raster[OF wf]
    by (auto simp: Cons.IH[OF rest])
qed

text \<open>
  C3, amended. For a non-negative image size and bounding boxes with \<open>xmin \<le> xmax\<close> and
  \<open>ymin \<le> ymax\<close>, the mask starts all 0 and every box is painted with 255, both corners of
  the box included: the pixel at \<open>(x, y)\<close> is 255 when some box has
  \<open>xmin \<le> x \<le> xmax\<close> and \<open>ymin \<le> y \<le> ymax\<close>, and 0 otherwise.
\<close>

theorem generate_mask_raster:
  assumes "0 \<le> w" and "0 \<le> h"
    and "list_all (\<lambda>(x0, y0, x1, y1). x0 \<le> x1 \<and> y0 \<le> y1) bboxes"
  shows "generate_mask_from_bbox bboxes (w, h)
           = Inr (map (\<lambda>y. map (\<lambda>x. if list_ex (\<lambda>(x0, y0, x1, y1).
                                             x0 \<le> int x \<and> int x \<le> x1 \<and> y0 \<le> int y \<and> int y \<le> y1) bboxes
                                      then 255 else 0) [0..<nat w]) [0..<nat h])"
proof -
  have "replicate (nat h) (replicate (nat w) (0::nat))
          = map (\<lambda>y. map (\<lambda>x. 0) [0..<nat w]) [0..<nat h]"
    by (simp add: map_replicate_const)
  then have "generate_mask_from_bbox bboxes (w, h)
          = draw_all (map (\<lambda>y. map (\<lambda>x. 0) [0..<nat w]) [0..<nat h]) bboxes"
    using assms(1,2) by (simp add: generate_mask_from_bbox_def image_new_def)
  then show ?thesis
    by (simp only: draw_all_raster[OF assms(3)])
qed

text \<open>
  The instance of the specification: one box \<open>(10, 10, 50, 50)\<close> on a 100 by 100 canvas gives 255
  exactly at the pixels with \<open>10 \<le> x \<le> 50\<close> and \<open>10 \<le> y \<le> 50\<close>.
\<close>

theorem generate_mask_raster_witness:
  "\<exists>m. generate_mask_from_bbox [(10, 10, 50, 50)] (100, 100) = Inr m \<and>
       rectangular 100 100 m \<and>
       (\<forall>x<100. \<forall>y<100.
          getpixel m (x, y) = (if 10 \<le> x \<and> x \<le> 50 \<and> 10 \<le> y \<and> y \<le> 50 then 255 else 0))"
proof -
  have h: "list_all (\<lambda>(x0, y0, x1, y1). x0 \<le> x1 \<and> y0 \<le> y1) [(10::int, 10::int, 50::int, 50::int)]"
    by simp
  have w: "(0::int) \<le> 100" by simp
  show ?thesis
    unfolding generate_mask_raster[OF w w h]
    by (simp add: rectangular_def list_all_iff getpixel_def)
qed

text \<open>
  C3 as stated fails at the far corner of the box: the pixel \<open>(50, 50)\<close>, which the specification
  leaves at 0, is painted, as is the whole column \<open>x = 50\<close> and row \<open>y = 50\<close> of the box.
\<close>

theorem generate_mask_corner_counterexample:
  "map_sum id (\<lambda>m. (getpixel m (50, 50), getpixel m (50, 10), getpixel m (51, 50)))
     (generate_mask_from_bbox [(10, 10, 50, 50)] (100, 100)) = Inr (255, 255, 0)"
  by (simp add: generate_mask_from_bbox_def image_new_def draw_rectangle_def getpixel_def
        nth_enumerate_eq)

section \<open>Filesystem updates\<close>

lemma lookup_update_other: "q \<noteq> p \<Longrightarrow> lookup (AList.update p e fs) q = lookup fs q"
  by (simp add: lookup_def update_conv')

lemma lookup_update_same: "p \<noteq> [] \<Longrightarrow> lookup (AList.update p e fs) p = Some e"
  by (simp add: lookup_def update_conv')

lemma lookup_delete_other: "q \<noteq> p \<Longrightarrow> lookup (AList.delete p fs) q = lookup fs q"
  by (simp add: lookup_def delete_conv')

lemma lookup_delete_same: "p \<noteq> [] \<Longrightarrow> lookup (AList.delete p fs) p = None"
  by (simp add: lookup_def delete_conv')

section \<open>Properties of the frame exporter\<close>

lemma cv2_imwrite_frame:
  assumes "cv2_imwrite enc fs p img = Inr fs' \<or> cv2_imwrite enc fs p img = Inl (err, fs')"
    and "q \<noteq> p"
  shows "lookup fs' q = lookup fs q"
  using assms by (auto simp: cv2_imwrite_def lookup_update_other split: if_splits)

lemma export_view_frame:
  assumes "export_view enc hif_path save_path fs (i, rgb) = Inr fs'
           \<or> export_view enc hif_path save_path fs (i, rgb) = Inl (err, fs')"
    and "q \<noteq> save_path @ [frame_name hif_path i]"
  shows "lookup fs' q = lookup fs q"
  using assms unfolding export_view_def prod.case by (rule cv2_imwrite_frame)

lemma export_views_frame:
  assumes "for_each (export_view enc hif_path save_path) ivs fs = Inr fs'
           \<or> for_each (export_view enc hif_path save_path) ivs fs = Inl (err, fs')"
    and "\<forall>i. q \<noteq> save_path @ [frame_name hif_path i]"
  shows "lookup fs' q = lookup fs q"
  using assms
proof (induction ivs arbitrary: fs)
  case Nil
  then show ?case by simp
next
  case (Cons iv ivs)
  obtain i rgb where iv: "iv = (i, rgb)" by (cases iv)
  from Cons.prems(2) have ne: "q \<noteq> save_path @ [frame_name hif_path i]" by blast
  show ?case
  proof (cases "export_view enc hif_path save_path fs iv")
    case (Inl x)
    with Cons.prems(1) have "export_view enc hif_path save_path fs iv = Inl (err, fs')"
      by simp
    then show ?thesis
      using export_view_frame[OF _ ne] unfolding iv by blast
  next
    case (Inr fs1)
    then have "lookup fs1 q = lookup fs q"
      using export_view_frame[OF _ ne] unfolding iv by blast
    moreover have "lookup fs' q = lookup fs1 q"
      using Cons.IH[of fs1] Cons.prems Inr by simp
    ultimately show ?thesis by simp
  qed
qed

text \<open>
  C5, amended. When a file \<open><basename>-0.jpg\<close> exists directly under the destination, or
  under its \<open>train\<close> or \<open>test\<close> subdirectory, the export call writes nothing and returns 0,
  so that no exported image is overwritten. In every case, whether the call returns or
  raises, a path that is not \<open><destination>/<basename>-<i>.jpg\<close> for some view index \<open>i\<close>
  holds what it held before the call.
\<close>

theorem export_skips_or_writes_own_names:
  "(os_path_exists fs (save_path @ [frame_name hif_path 0])
      \<or> os_path_exists fs (save_path @ [''train'', frame_name hif_path 0])
      \<or> os_path_exists fs (save_path @ [''test'', frame_name hif_path 0])
    \<longrightarrow> export decode enc fs hif_path save_path = Inr (0, fs))
   \<and> ((export decode enc fs2 hif_path2 save_path2 = Inr (n, fs')
        \<or> export decode enc fs2 hif_path2 save_path2 = Inl (err, fs'))
       \<and> (\<forall>i. q \<noteq> save_path2 @ [frame_name hif_path2 i])
    \<longrightarrow> lookup fs' q = lookup fs2 q)"
proof (intro conjI impI)
  assume "os_path_exists fs (save_path @ [frame_name hif_path 0])
      \<or> os_path_exists fs (save_path @ [''train'', frame_name hif_path 0])
      \<or> os_path_exists fs (save_path @ [''test'', frame_name hif_path 0])"
  then show "export decode enc fs hif_path save_path = Inr (0, fs)"
    by (auto simp: export_def)
next
  assume a: "(export decode enc fs2 hif_path2 save_path2 = Inr (n, fs')
        \<or> export decode enc fs2 hif_path2 save_path2 = Inl (err, fs'))
       \<and> (\<forall>i. q \<noteq> save_path2 @ [frame_name hif_path2 i])"
  then have ne: "\<forall>i. q \<noteq> save_path2 @ [frame_name hif_path2 i]" by blast
  from a show "lookup fs' q = lookup fs2 q"
    by (auto simp: export_def split: if_splits sum.splits
             dest: export_views_frame[OF disjI1 ne] export_views_frame[OF disjI2 ne])
qed

theorem export_skips_or_writes_own_names_witness:
  "export (\<lambda>c. Some [[''v0''], [''v1'']]) concat
      [([''bags'', ''a.hif''], File ''raw''), ([''out''], Dir),
       ([''out'', ''train''], Dir), ([''out'', ''train'', ''a.hif-0.jpg''], File ''old0'')]
      [''bags'', ''a.hif''] [''out'']
    = Inr (0, [([''bags'', ''a.hif''], File ''raw''), ([''out''], Dir),
               ([''out'', ''train''], Dir), ([''out'', ''train'', ''a.hif-0.jpg''], File ''old0'')])
   \<and> export (\<lambda>c. Some [[''v0''], [''v1'']]) concat
      [([''bags'', ''a.hif''], File ''raw''), ([''out''], Dir), ([''out'', ''notes.txt''], File ''keep'')]
      [''bags'', ''a.hif''] [''out'']
    = Inr (2, [([''bags'', ''a.hif''], File ''raw''), ([''out''], Dir),
               ([''out'', ''notes.txt''], File ''keep''),
               ([''out'', ''a.hif-0.jpg''], File ''v0''), ([''out'', ''a.hif-1.jpg''], File ''v1'')])
   \<and> lookup [([''bags'', ''a.hif''], File ''raw''), ([''out''], Dir),
               ([''out'', ''notes.txt''], File ''keep''),
               ([''out'', ''a.hif-0.jpg''], File ''v0''), ([''out'', ''a.hif-1.jpg''], File ''v1'')]
         [''out'', ''notes.txt'']
       = lookup [([''bags'', ''a.hif''], File ''raw''), ([''out''], Dir),
                 ([''out'', ''notes.txt''], File ''keep'')] [''out'', ''notes.txt'']"
proof -
  let ?D = "\<lambda>c::content. Some [[''v0''], [''v1'']]"
  let ?A = "[([''bags'', ''a.hif''], File ''raw''), ([''out''], Dir),
       ([''out'', ''train''], Dir), ([''out'', ''train'', ''a.hif-0.jpg''], File ''old0'')]"
  let ?B = "[([''bags'', ''a.hif''], File ''raw''), ([''out''], Dir), ([''out'', ''notes.txt''], File ''keep'')]"
  let ?B' = "[([''bags'', ''a.hif''], File ''raw''), ([''out''], Dir),
               ([''out'', ''notes.txt''], File ''keep''),
               ([''out'', ''a.hif-0.jpg''], File ''v0''), ([''out'', ''a.hif-1.jpg''], File ''v1'')]"
  have g: "os_path_exists ?A ([''out''] @ [''train'', frame_name [''bags'', ''a.hif''] 0])"
    by code_simp
  have e: "export ?D concat ?B [''bags'', ''a.hif''] [''out''] = Inr (2, ?B')"
    by code_simp
  have n: "\<forall>i. [''out'', ''notes.txt''] \<noteq> [''out''] @ [frame_name [''bags'', ''a.hif''] i]"
    by (simp add: frame_name_def os_path_basename_def)
  from g e n show ?thesis
    using export_skips_or_writes_own_names[of ?A "[''out'']" "[''bags'', ''a.hif'']" ?D concat
        ?B "[''bags'', ''a.hif'']" "[''out'']" 2 ?B' FileNotFoundError "[''out'', ''notes.txt'']"]
    by blast
qed

text \<open>
  C5 as stated fails: with no view-0 file in the destination, an image already there under
  the name of view 1 is replaced by the new frame.
\<close>

theorem export_overwrites_later_view_counterexample:
  "lookup [([''bags'', ''a.hif''], File ''raw''), ([''out''], Dir),
           ([''out'', ''a.hif-1.jpg''], File ''old'')] [''out'', ''a.hif-1.jpg'']
     = Some (File ''old'')
   \<and> map_sum id (\<lambda>(n, fs'). (n, lookup fs' [''out'', ''a.hif-1.jpg'']))
        (export (\<lambda>c. Some [[''v0''], [''v1'']]) concat
           [([''bags'', ''a.hif''], File ''raw''), ([''out''], Dir),
            ([''out'', ''a.hif-1.jpg''], File ''old'')]
           [''bags'', ''a.hif''] [''out''])
     = Inr (2, Some (File ''v1''))"
  by code_simp

section \<open>Properties of the merge/copy engine\<close>

lemma for_each_raises:
  assumes "for_each body xs st = Inl x"
  shows "\<exists>pre y post st1. xs = pre @ y # post \<and> for_each body pre st = Inr st1 \<and> body st1 y = Inl x"
  using assms
proof (induction xs arbitrary: st)
  case Nil
  then show ?case by simp
next
  case (Cons a xs)
  show ?case
  proof (cases "body st a")
    case (Inl e)
    with Cons.prems have "body st a = Inl x" by simp
    then have "a # xs = [] @ a # xs \<and> for_each body [] st = Inr st \<and> body st a = Inl x"
      by simp
    then show ?thesis by blast
  next
    case (Inr st')
    with Cons.prems have "for_each body xs st' = Inl x" by simp
    from Cons.IH[OF this] obtain pre y post st1
      where "xs = pre @ y # post" "for_each body pre st' = Inr st1" "body st1 y = Inl x"
      by blast
    then have "a # xs = (a # pre) @ y # post \<and> for_each body (a # pre) st = Inr st1
               \<and> body st1 y = Inl x"
      using Inr by simp
    then show ?thesis by blast
  qed
qed

lemma shutil_copyfile_raises:
  assumes "shutil_copyfile flt fs s d = Inl (err, fs')"
  shows "lookup fs' s = lookup fs s"
  using assms
  by (auto simp: shutil_copyfile_def lookup_update_other
           split: if_splits option.splits entry.splits)

lemma shutil_copyfile_returns:
  assumes "shutil_copyfile flt fs s d = Inr fs'"
  shows "\<exists>c. lookup fs s = Some (File c) \<and> fs' = AList.update d (File c) fs \<and> s \<noteq> d"
  using assms
  by (auto simp: shutil_copyfile_def split: if_splits option.splits entry.splits)

lemma copy_file_skips:
  "os_path_exists fs (dest @ [file]) \<Longrightarrow> \<not> overwrite
   \<Longrightarrow> copy_file flt src dest delete_at_source overwrite fs file = Inr fs"
  by (simp add: copy_file_def)

lemma copy_file_raises:
  assumes "copy_file flt src dest delete_at_source overwrite fs file = Inl (err, fs')"
  shows "os_path_isfile fs (src @ [file]) \<and> lookup fs' (src @ [file]) = lookup fs (src @ [file])"
proof -
  from assms have isf: "os_path_isfile fs (src @ [file])"
    by (auto simp: copy_file_def split: if_splits)
  show ?thesis
  proof (cases "shutil_copyfile flt fs (src @ [file]) (dest @ [file])")
    case (Inl x)
    with assms isf have "shutil_copyfile flt fs (src @ [file]) (dest @ [file]) = Inl (err, fs')"
      by (auto simp: copy_file_def split: if_splits)
    from shutil_copyfile_raises[OF this] isf show ?thesis by simp
  next
    case (Inr fs1)
    from shutil_copyfile_returns[OF this] obtain c
      where c: "lookup fs (src @ [file]) = Some (File c)"
        and fs1: "fs1 = AList.update (dest @ [file]) (File c) fs"
        and ne: "src @ [file] \<noteq> dest @ [file]"
      by blast
    then have "lookup fs1 (src @ [file]) = Some (File c)"
      by (simp add: lookup_update_other)
    then have "os_remove fs1 (src @ [file]) = Inr (AList.delete (src @ [file]) fs1)"
      by (simp add: os_remove_def)
    with assms Inr isf have False
      by (auto simp: copy_file_def split: if_splits)
    then show ?thesis ..
  qed
qed

lemma copy_file_moves:
  assumes "copy_file flt src dest True overwrite fs file = Inr fs'"
    and "lookup fs' (src @ [file]) \<noteq> lookup fs (src @ [file])"
  shows "lookup fs' (src @ [file]) = None
         \<and> lookup fs' (dest @ [file]) = lookup fs (src @ [file])"
proof -
  from assms have isf: "os_path_isfile fs (src @ [file])"
    and nskip: "\<not> (os_path_exists fs (dest @ [file]) \<and> \<not> overwrite)"
    by (auto simp: copy_file_def split: if_splits)
  then obtain fs1 where cp: "shutil_copyfile flt fs (src @ [file]) (dest @ [file]) = Inr fs1"
    and rm: "os_remove fs1 (src @ [file]) = Inr fs'"
    using assms(1) by (auto simp: copy_file_def split: if_splits sum.splits)
  from shutil_copyfile_returns[OF cp] obtain c
    where c: "lookup fs (src @ [file]) = Some (File c)"
      and fs1: "fs1 = AList.update (dest @ [file]) (File c) fs"
      and ne: "src @ [file] \<noteq> dest @ [file]"
    by blast
  have l1: "lookup fs1 (src @ [file]) = Some (File c)"
    using c fs1 ne by (simp add: lookup_update_other)
  with rm have fs': "fs' = AList.delete (src @ [file]) fs1"
    by (simp add: os_remove_def)
  have "lookup fs' (src @ [file]) = None"
    unfolding fs' by (rule lookup_delete_same) simp
  moreover have "lookup fs' (dest @ [file]) = Some (File c)"
    unfolding fs' fs1 using ne by (simp add: lookup_delete_other lookup_update_same)
  ultimately show ?thesis using c by simp
qed

text \<open>
  C9. (1) A name whose destination exists is skipped when \<open>overwrite\<close> is not set: the
  filesystem, source and destination included, is unchanged. (2) Under move semantics the
  source of a name changes only by being removed, and then the destination holds what the
  source held. (3) When a move raises, it raises in the copy of one entry of \<open>files\<close>, the
  entries before it having been processed, and the source of that entry is still a regular
  file with the content it had when its copy began.
\<close>

theorem copy_files_skip_and_move_safety:
  "(os_path_exists fs (dest @ [file]) \<and> \<not> overwrite
      \<longrightarrow> copy_file flt src dest delete_at_source overwrite fs file = Inr fs)
   \<and> (copy_file flt2 src2 dest2 True overwrite2 fs2 file2 = Inr fs2'
        \<and> lookup fs2' (src2 @ [file2]) \<noteq> lookup fs2 (src2 @ [file2])
      \<longrightarrow> lookup fs2' (src2 @ [file2]) = None
          \<and> lookup fs2' (dest2 @ [file2]) = lookup fs2 (src2 @ [file2]))
   \<and> (copy_files flt3 fs3 src3 files3 dest3 True overwrite3 = Inl (err, fs3')
      \<longrightarrow> (\<exists>pre file3 post fs1.
             files3 = pre @ file3 # post
           \<and> for_each (copy_file flt3 src3 dest3 True overwrite3) pre (try_makedirs fs3 dest3) = Inr fs1
           \<and> copy_file flt3 src3 dest3 True overwrite3 fs1 file3 = Inl (err, fs3')
           \<and> os_path_isfile fs3' (src3 @ [file3])
           \<and> lookup fs3' (src3 @ [file3]) = lookup fs1 (src3 @ [file3])))"
proof (intro conjI impI)
  assume "os_path_exists fs (dest @ [file]) \<and> \<not> overwrite"
  then show "copy_file flt src dest delete_at_source overwrite fs file = Inr fs"
    by (simp add: copy_file_skips)
next
  assume "copy_file flt2 src2 dest2 True overwrite2 fs2 file2 = Inr fs2'
        \<and> lookup fs2' (src2 @ [file2]) \<noteq> lookup fs2 (src2 @ [file2])"
  then show "lookup fs2' (src2 @ [file2]) = None"
    and "lookup fs2' (dest2 @ [file2]) = lookup fs2 (src2 @ [file2])"
    using copy_file_moves by blast+
next
  assume "copy_files flt3 fs3 src3 files3 dest3 True overwrite3 = Inl (err, fs3')"
  then have "for_each (copy_file flt3 src3 dest3 True overwrite3) files3 (try_makedirs fs3 dest3)
               = Inl (err, fs3')"
    by (simp add: copy_files_def)
  from for_each_raises[OF this] obtain pre file3 post fs1
    where d: "files3 = pre @ file3 # post"
      "for_each (copy_file flt3 src3 dest3 True overwrite3) pre (try_makedirs fs3 dest3) = Inr fs1"
      "copy_file flt3 src3 dest3 True overwrite3 fs1 file3 = Inl (err, fs3')"
    by blast
  from copy_file_raises[OF d(3)]
  have "os_path_isfile fs1 (src3 @ [file3])"
    and eq: "lookup fs3' (src3 @ [file3]) = lookup fs1 (src3 @ [file3])"
    by simp_all
  then have "os_path_isfile fs3' (src3 @ [file3])"
    by (simp add: os_path_isfile_def)
  with d eq show "\<exists>pre file3 post fs1.
             files3 = pre @ file3 # post
           \<and> for_each (copy_file flt3 src3 dest3 True overwrite3) pre (try_makedirs fs3 dest3) = Inr fs1
           \<and> copy_file flt3 src3 dest3 True overwrite3 fs1 file3 = Inl (err, fs3')
           \<and> os_path_isfile fs3' (src3 @ [file3])
           \<and> lookup fs3' (src3 @ [file3]) = lookup fs1 (src3 @ [file3])"
    by blast
qed

theorem copy_files_skip_and_move_safety_witness:
  "copy_file (\<lambda>p. None) [''s''] [''d''] True False
      [([''s''], Dir), ([''s'', ''a.jpg''], File ''AB''), ([''d''], Dir), ([''d'', ''a.jpg''], File ''old'')]
      ''a.jpg''
    = Inr [([''s''], Dir), ([''s'', ''a.jpg''], File ''AB''), ([''d''], Dir), ([''d'', ''a.jpg''], File ''old'')]
   \<and> lookup [([''s''], Dir), ([''d''], Dir), ([''d'', ''a.jpg''], File ''AB'')] ([''s''] @ [''a.jpg'']) = None
   \<and> lookup [([''s''], Dir), ([''d''], Dir), ([''d'', ''a.jpg''], File ''AB'')] ([''d''] @ [''a.jpg''])
       = lookup [([''s''], Dir), ([''s'', ''a.jpg''], File ''AB''), ([''d''], Dir)] ([''s''] @ [''a.jpg''])
   \<and> (\<exists>pre file3 post fs1.
         [''a.jpg'', ''b.jpg'', ''c.jpg''] = pre @ file3 # post
       \<and> for_each (copy_file (\<lambda>p. if p = [''d'', ''b.jpg''] then Some 1 else None) [''s''] [''d''] True False) pre
            (try_makedirs [([''s''], Dir), ([''s'', ''a.jpg''], File ''AB''),
                           ([''s'', ''b.jpg''], File ''CD''), ([''s'', ''c.jpg''], File ''EF'')] [''d''])
           = Inr fs1
       \<and> copy_file (\<lambda>p. if p = [''d'', ''b.jpg''] then Some 1 else None) [''s''] [''d''] True False fs1 file3
           = Inl (OSError, [([''s''], Dir), ([''s'', ''b.jpg''], File ''CD''),
                            ([''s'', ''c.jpg''], File ''EF''), ([''d''], Dir),
                            ([''d'', ''a.jpg''], File ''AB''), ([''d'', ''b.jpg''], File ''C'')])
       \<and> os_path_isfile [([''s''], Dir), ([''s'', ''b.jpg''], File ''CD''),
                            ([''s'', ''c.jpg''], File ''EF''), ([''d''], Dir),
                            ([''d'', ''a.jpg''], File ''AB''), ([''d'', ''b.jpg''], File ''C'')]
             ([''s''] @ [file3])
       \<and> lookup [([''s''], Dir), ([''s'', ''b.jpg''], File ''CD''),
                     ([''s'', ''c.jpg''], File ''EF''), ([''d''], Dir),
                     ([''d'', ''a.jpg''], File ''AB''), ([''d'', ''b.jpg''], File ''C'')]
             ([''s''] @ [file3])
           = lookup fs1 ([''s''] @ [file3]))"
proof -
  let ?A = "[([''s''], Dir), ([''s'', ''a.jpg''], File ''AB''), ([''d''], Dir), ([''d'', ''a.jpg''], File ''old'')]"
  let ?B = "[([''s''], Dir), ([''s'', ''a.jpg''], File ''AB''), ([''d''], Dir)]"
  let ?B' = "[([''s''], Dir), ([''d''], Dir), ([''d'', ''a.jpg''], File ''AB'')]"
  let ?F = "\<lambda>p::path. if p = [''d'', ''b.jpg''] then Some (1::nat) else None"
  let ?C = "[([''s''], Dir), ([''s'', ''a.jpg''], File ''AB''),
             ([''s'', ''b.jpg''], File ''CD''), ([''s'', ''c.jpg''], File ''EF'')]"
  let ?C' = "[([''s''], Dir), ([''s'', ''b.jpg''], File ''CD''),
              ([''s'', ''c.jpg''], File ''EF''), ([''d''], Dir),
              ([''d'', ''a.jpg''], File ''AB''), ([''d'', ''b.jpg''], File ''C'')]"
  have h1: "os_path_exists ?A ([''d''] @ [''a.jpg'']) \<and> \<not> False"
    by code_simp
  have h2: "copy_file (\<lambda>p. None) [''s''] [''d''] True False ?B ''a.jpg'' = Inr ?B'
            \<and> lookup ?B' ([''s''] @ [''a.jpg'']) \<noteq> lookup ?B ([''s''] @ [''a.jpg''])"
    by code_simp
  have h3: "copy_files ?F ?C [''s''] [''a.jpg'', ''b.jpg'', ''c.jpg''] [''d''] True False = Inl (OSError, ?C')"
    by code_simp
  from h1 h2 h3 show ?thesis
    using copy_files_skip_and_move_safety[of ?A "[''d'']" "''a.jpg''" False "\<lambda>p. None" "[''s'']" True
        "\<lambda>p. None" "[''s'']" "[''d'']" False ?B "''a.jpg''" ?B'
        ?F ?C "[''s'']" "[''a.jpg'', ''b.jpg'', ''c.jpg'']" "[''d'']" False OSError ?C']
    by blast
qed

section \<open>Properties of the per-class classifier\<close>

lemma bucket_bucket_append:
  "bucket (bucket_append k v d) k' = (if k' = k then bucket d k @ [v] else bucket d k')"
  by (auto simp: bucket_def bucket_append_def update_conv' split: option.splits)

lemma bucket_fold_append:
  assumes "distinct cs"
  shows "bucket (fold (\<lambda>cls d. if P cls then bucket_append cls file d else d) cs d) k
           = bucket d k @ (if k \<in> set cs \<and> P k then [file] else [])"
  using assms
proof (induction cs arbitrary: d)
  case Nil
  show ?case by simp
next
  case (Cons c cs)
  then show ?case
    by (auto simp: bucket_bucket_append)
qed

lemma classify_file_buckets:
  assumes "classify_file et fs xml_dir anomaly_classes (n, a) file = Inr (n', a')"
  shows "bucket n' k = bucket n k @ (if unique_cls et fs xml_dir file \<inter> set anomaly_classes = {}
                                         \<and> k \<in> unique_cls et fs xml_dir file then [file] else [])"
    and "bucket a' k = bucket a k @ (if k \<in> unique_cls et fs xml_dir file
                                         \<and> k \<in> set anomaly_classes then [file] else [])"
proof -
  from assms obtain ann where p: "parse_voc_xml et fs (xml_dir @ [xml_name file]) = Inr ann"
    by (auto simp: classify_file_def split: sum.splits)
  define cs where "cs = remdups (map name (objects ann))"
  have u: "unique_cls et fs xml_dir file = set cs"
    by (simp add: unique_cls_def p cs_def)
  have dc: "distinct cs" by (simp add: cs_def)
  have c: "list_ex (\<lambda>x. x \<in> set cs) anomaly_classes \<longleftrightarrow> set cs \<inter> set anomaly_classes \<noteq> {}"
    by (auto simp: list_ex_iff)
  have step: "classify_file et fs xml_dir anomaly_classes (n, a) file =
      (if set cs \<inter> set anomaly_classes \<noteq> {}
       then Inr (n, fold (\<lambda>cls d. if cls \<in> set anomaly_classes then bucket_append cls file d else d) cs a)
       else Inr (fold (\<lambda>cls d. bucket_append cls file d) cs n, a))"
    unfolding classify_file_def prod.case p sum.case Let_def cs_def[symmetric] c ..
  have f1: "bucket (fold (\<lambda>cls d. bucket_append cls file d) cs n) k
              = bucket n k @ (if k \<in> set cs then [file] else [])"
    using bucket_fold_append[OF dc, of "\<lambda>_. True" "file" n k] by simp
  note f2 = bucket_fold_append[OF dc, of "\<lambda>cls. cls \<in> set anomaly_classes" "file" a k]
  show "bucket n' k = bucket n k @ (if unique_cls et fs xml_dir file \<inter> set anomaly_classes = {}
                                         \<and> k \<in> unique_cls et fs xml_dir file then [file] else [])"
    using assms f1 unfolding u step
    by (auto split: if_splits)
  show "bucket a' k = bucket a k @ (if k \<in> unique_cls et fs xml_dir file
                                         \<and> k \<in> set anomaly_classes then [file] else [])"
    using assms f2 unfolding u step
    by (auto split: if_splits)
qed

lemma classify_loop_buckets:
  assumes "for_each (classify_file et fs xml_dir anomaly_classes) files (n, a) = Inr (n', a')"
  shows "bucket n' k = bucket n k @ filter (\<lambda>f. unique_cls et fs xml_dir f \<inter> set anomaly_classes = {}
                                                \<and> k \<in> unique_cls et fs xml_dir f) files
       \<and> bucket a' k = bucket a k @ filter (\<lambda>f. k \<in> unique_cls et fs xml_dir f
                                                \<and> k \<in> set anomaly_classes) files"
  using assms
proof (induction files arbitrary: n a)
  case Nil
  then show ?case by simp
next
  case (Cons f files)
  from Cons.prems obtain n1 a1
    where s: "classify_file et fs xml_dir anomaly_classes (n, a) f = Inr (n1, a1)"
      and r: "for_each (classify_file et fs xml_dir anomaly_classes) files (n1, a1) = Inr (n', a')"
    by (auto split: sum.splits)
  from Cons.IH[OF r] classify_file_buckets[OF s, of k] show ?case
    by simp
qed

lemma count_list_filter:
  "count_list (filter P xs) x = (if P x then count_list xs x else 0)"
  by (induction xs) auto

text \<open>
  C8. When \<open>classify_files\<close> returns, a file whose class set meets the anomaly classes is
  in the abnormal bucket of each matching anomaly class, as often as it is in \<open>files\<close>
  (once, for a file listed once), in no other abnormal bucket and in no normal bucket; a
  file whose class set does not meet the anomaly classes is in the normal bucket of each
  class of its annotation, as often as it is in \<open>files\<close>, in no other normal bucket and
  in no abnormal bucket.
\<close>

theorem classify_files_per_class:
  assumes "classify_files et fs xml_dir files anomaly_classes = Inr (normal_files, abnormal_files)"
  shows "(unique_cls et fs xml_dir file \<inter> set anomaly_classes \<noteq> {} \<longrightarrow>
            count_list (bucket abnormal_files cls) file
              = (if cls \<in> unique_cls et fs xml_dir file \<inter> set anomaly_classes
                 then count_list files file else 0)
          \<and> file \<notin> set (bucket normal_files cls))
       \<and> (unique_cls et fs xml_dir file2 \<inter> set anomaly_classes = {} \<longrightarrow>
            count_list (bucket normal_files cls2) file2
              = (if cls2 \<in> unique_cls et fs xml_dir file2 then count_list files file2 else 0)
          \<and> file2 \<notin> set (bucket abnormal_files cls2))"
proof -
  from assms
  have loop: "for_each (classify_file et fs xml_dir anomaly_classes) files ([], [])
                = Inr (normal_files, abnormal_files)"
    by (simp add: classify_files_def)
  have e: "bucket [] k = []" for k :: string
    by (simp add: bucket_def)
  have n: "bucket normal_files k
             = filter (\<lambda>f. unique_cls et fs xml_dir f \<inter> set anomaly_classes = {}
                           \<and> k \<in> unique_cls et fs xml_dir f) files"
    and a: "bucket abnormal_files k
             = filter (\<lambda>f. k \<in> unique_cls et fs xml_dir f \<and> k \<in> set anomaly_classes) files"
    for k
    using classify_loop_buckets[OF loop, of k] by (simp_all add: e)
  show ?thesis
    unfolding n a by (auto simp: count_list_filter)
qed

theorem classify_files_per_class_witness:
  "classify_files
     (\<lambda>s. if s = ''A'' then Some \<lparr>filename = ''gk.jpg'', width = 100, height = 100, depth = 3,
                 objects = [\<lparr>name = ''gun'', bbox = \<lparr>xmin = 1, ymin = 1, xmax = 9, ymax = 9\<rparr>\<rparr>,
                            \<lparr>name = ''knife'', bbox = \<lparr>xmin = 2, ymin = 2, xmax = 5, ymax = 5\<rparr>\<rparr>]\<rparr>
          else if s = ''B'' then Some \<lparr>filename = ''k.jpg'', width = 100, height = 100, depth = 3,
                 objects = [\<lparr>name = ''knife'', bbox = \<lparr>xmin = 2, ymin = 2, xmax = 5, ymax = 5\<rparr>\<rparr>]\<rparr>
          else None)
     [([''xml'', ''gk.xml''], File ''A''), ([''xml'', ''k.xml''], File ''B'')]
     [''xml''] [[''img'', ''gk.jpg''], [''img'', ''k.jpg'']] [''gun'']
    = Inr ([(''knife'', [[''img'', ''k.jpg'']])], [(''gun'', [[''img'', ''gk.jpg'']])])
   \<and> count_list (bucket [(''gun'', [[''img'', ''gk.jpg'']])] ''gun'') [''img'', ''gk.jpg''] = 1
   \<and> count_list (bucket [(''gun'', [[''img'', ''gk.jpg'']])] ''knife'') [''img'', ''gk.jpg''] = 0
   \<and> [''img'', ''gk.jpg''] \<notin> set (bucket [(''knife'', [[''img'', ''k.jpg'']])] ''gun'')
   \<and> [''img'', ''gk.jpg''] \<notin> set (bucket [(''knife'', [[''img'', ''k.jpg'']])] ''knife'')
   \<and> count_list (bucket [(''knife'', [[''img'', ''k.jpg'']])] ''knife'') [''img'', ''k.jpg''] = 1
   \<and> [''img'', ''k.jpg''] \<notin> set (bucket [(''gun'', [[''img'', ''gk.jpg'']])] ''knife'')"
proof -
  let ?et = "\<lambda>s. if s = ''A'' then Some \<lparr>filename = ''gk.jpg'', width = 100, height = 100, depth = 3,
                 objects = [\<lparr>name = ''gun'', bbox = \<lparr>xmin = 1, ymin = 1, xmax = 9, ymax = 9\<rparr>\<rparr>,
                            \<lparr>name = ''knife'', bbox = \<lparr>xmin = 2, ymin = 2, xmax = 5, ymax = 5\<rparr>\<rparr>]\<rparr>
          else if s = ''B'' then Some \<lparr>filename = ''k.jpg'', width = 100, height = 100, depth = 3,
                 objects = [\<lparr>name = ''knife'', bbox = \<lparr>xmin = 2, ymin = 2, xmax = 5, ymax = 5\<rparr>\<rparr>]\<rparr>
          else None"
  let ?fs = "[([''xml'', ''gk.xml''], File ''A''), ([''xml'', ''k.xml''], File ''B'')]"
  let ?files = "[[''img'', ''gk.jpg''], [''img'', ''k.jpg'']]"
  have r: "classify_files ?et ?fs [''xml''] ?files [''gun'']
             = Inr ([(''knife'', [[''img'', ''k.jpg'']])], [(''gun'', [[''img'', ''gk.jpg'']])])"
    by code_simp
  have u1: "unique_cls ?et ?fs [''xml''] [''img'', ''gk.jpg''] = {''gun'', ''knife''}"
    by code_simp
  have u2: "unique_cls ?et ?fs [''xml''] [''img'', ''k.jpg''] = {''knife''}"
    by code_simp
  from classify_files_per_class[OF r, of "[''img'', ''gk.jpg'']" "''gun''" "[''img'', ''k.jpg'']" "''knife''"]
       classify_files_per_class[OF r, of "[''img'', ''gk.jpg'']" "''knife''" "[''img'', ''k.jpg'']" "''knife''"]
       r
  show ?thesis
    unfolding u1 u2 by simp
qed

section \<open>Files without objects\<close>

lemma for_each_invariant:
  assumes "for_each body xs st = Inr st' \<or> for_each body xs st = Inl (e, st')"
    and "I st"
    and "\<And>y s s' e'. y \<in> set xs \<Longrightarrow> I s \<Longrightarrow> body s y = Inr s' \<or> body s y = Inl (e', s') \<Longrightarrow> I s'"
  shows "I st'"
  using assms
proof (induction xs arbitrary: st)
  case Nil
  then show ?case by simp
next
  case (Cons x xs)
  show ?case
  proof (cases "body st x")
    case (Inl err)
    with Cons.prems(1) have "body st x = Inl (e, st')" by simp
    then show ?thesis
      using Cons.prems(2) Cons.prems(3)[of x st st' e] by simp
  next
    case (Inr s1)
    then have i1: "I s1"
      using Cons.prems(2) Cons.prems(3)[of x st s1] by simp
    have r1: "for_each body xs s1 = Inr st' \<or> for_each body xs s1 = Inl (e, st')"
      using Cons.prems(1) Inr by simp
    show ?thesis
    proof (rule Cons.IH[OF r1 i1])
      fix y s s' e'
      assume "y \<in> set xs" "I s" "body s y = Inr s' \<or> body s y = Inl (e', s')"
      then show "I s'"
        using Cons.prems(3)[of y s s' e'] by simp
    qed
  qed
qed

lemma set_alist_update:
  "(k', v') \<in> set (AList.update k v d) \<Longrightarrow> (k', v') = (k, v) \<or> (k', v') \<in> set d"
  by (induction d) (auto split: if_splits)

lemma bucket_append_entries:
  assumes "(c, fl) \<in> set (bucket_append k v d)" and "g \<in> set fl"
  shows "(\<exists>fl0. (c, fl0) \<in> set d \<and> g \<in> set fl0) \<or> (c = k \<and> g = v)"
proof (cases "map_of d k")
  case None
  with assms show ?thesis
    by (auto simp: bucket_append_def)
next
  case (Some vs)
  then have "(k, vs) \<in> set d" by (rule map_of_SomeD)
  moreover from assms(1) Some have "(c, fl) = (k, vs @ [v]) \<or> (c, fl) \<in> set d"
    by (auto simp: bucket_append_def dest: set_alist_update)
  ultimately show ?thesis
    using assms(2) by auto
qed

lemma fold_append_entries:
  assumes "(c, fl) \<in> set (fold (\<lambda>cls d. if P cls then bucket_append cls v d else d) cs d)"
    and "g \<in> set fl"
  shows "(\<exists>fl0. (c, fl0) \<in> set d \<and> g \<in> set fl0) \<or> (c \<in> set cs \<and> g = v)"
  using assms
proof (induction cs arbitrary: d)
  case Nil
  then show ?case by auto
next
  case (Cons a cs)
  from Cons.IH[OF Cons.prems(1)[simplified] Cons.prems(2)]
  show ?case
    by (auto split: if_splits dest: bucket_append_entries)
qed

lemma classify_file_entries:
  assumes "classify_file et fs xml_dir anomaly_classes (n, a) file = Inr (n', a')"
    and "(c, fl) \<in> set n' \<or> (c, fl) \<in> set a'" and "g \<in> set fl"
  shows "(\<exists>fl0. ((c, fl0) \<in> set n \<or> (c, fl0) \<in> set a) \<and> g \<in> set fl0)
         \<or> (c \<in> unique_cls et fs xml_dir file \<and> g = file)"
proof -
  from assms(1) obtain ann where p: "parse_voc_xml et fs (xml_dir @ [xml_name file]) = Inr ann"
    by (auto simp: classify_file_def split: sum.splits)
  define cs where "cs = remdups (map name (objects ann))"
  have u: "unique_cls et fs xml_dir file = set cs"
    by (simp add: unique_cls_def p cs_def)
  have step: "classify_file et fs xml_dir anomaly_classes (n, a) file =
      (if list_ex (\<lambda>x. x \<in> set cs) anomaly_classes
       then Inr (n, fold (\<lambda>cls d. if cls \<in> set anomaly_classes then bucket_append cls file d else d) cs a)
       else Inr (fold (\<lambda>cls d. bucket_append cls file d) cs n, a))"
    unfolding classify_file_def prod.case p sum.case Let_def cs_def[symmetric] ..
  have fa: "(\<exists>fl0. (c, fl0) \<in> set n \<and> g \<in> set fl0) \<or> (c \<in> set cs \<and> g = file)"
    if "(c, fl) \<in> set (fold (\<lambda>cls d. bucket_append cls file d) cs n)"
    using fold_append_entries[of c fl "\<lambda>_. True" "file" cs n g] that assms(3) by simp
  have fb: "(\<exists>fl0. (c, fl0) \<in> set a \<and> g \<in> set fl0) \<or> (c \<in> set cs \<and> g = file)"
    if "(c, fl) \<in> set (fold (\<lambda>cls d. if cls \<in> set anomaly_classes
                                        then bucket_append cls file d else d) cs a)"
    using fold_append_entries[OF that assms(3)] .
  from assms(1,2) assms(3) show ?thesis
    unfolding step u
    by (auto split: if_splits dest: fa fb)
qed

lemma classify_files_entries:
  assumes "classify_files et fs xml_dir files anomaly_classes = Inr (normal_files, abnormal_files)"
    and "(c, fl) \<in> set normal_files \<or> (c, fl) \<in> set abnormal_files" and "g \<in> set fl"
  shows "c \<in> unique_cls et fs xml_dir g"
proof -
  define I where "I = (\<lambda>st :: buckets \<times> buckets.
      \<forall>c fl g. ((c, fl) \<in> set (fst st) \<or> (c, fl) \<in> set (snd st)) \<and> g \<in> set fl
                \<longrightarrow> c \<in> unique_cls et fs xml_dir g)"
  have "I (normal_files, abnormal_files)"
  proof (rule for_each_invariant[where I = I and e = ParseError])
    show "for_each (classify_file et fs xml_dir anomaly_classes) files ([], [])
            = Inr (normal_files, abnormal_files)
          \<or> for_each (classify_file et fs xml_dir anomaly_classes) files ([], [])
            = Inl (ParseError, (normal_files, abnormal_files))"
      using assms(1) by (simp add: classify_files_def)
    show "I ([], [])" by (simp add: I_def)
  next
    fix y s s' e'
    assume "I s" and b: "classify_file et fs xml_dir anomaly_classes s y = Inr s'
         \<or> classify_file et fs xml_dir anomaly_classes s y = Inl (e', s')"
    show "I s'"
    proof (cases "classify_file et fs xml_dir anomaly_classes s y")
      case (Inl x)
      with b have "s' = s"
        by (cases s) (auto simp: classify_file_def Let_def split: sum.splits if_splits)
      with \<open>I s\<close> show ?thesis by simp
    next
      case (Inr t)
      with b have r: "classify_file et fs xml_dir anomaly_classes (fst s, snd s) y = Inr (fst s', snd s')"
        by simp
      show ?thesis
        unfolding I_def
      proof (intro allI impI)
        fix c fl g
        assume "((c, fl) \<in> set (fst s') \<or> (c, fl) \<in> set (snd s')) \<and> g \<in> set fl"
        with classify_file_entries[OF r, of c fl g] \<open>I s\<close>
        show "c \<in> unique_cls et fs xml_dir g"
          unfolding I_def by blast
      qed
    qed
  qed
  with assms(2,3) show ?thesis
    unfolding I_def by auto
qed

lemma exists_update:
  "os_path_exists (AList.update p e fs) x \<Longrightarrow> x = p \<or> os_path_exists fs x"
  by (auto simp: os_path_exists_def lookup_def update_conv' split: if_splits)

lemma exists_delete:
  "os_path_exists (AList.delete p fs) x \<Longrightarrow> os_path_exists fs x"
  by (auto simp: os_path_exists_def lookup_def delete_conv' split: if_splits)

lemma exists_fold_mkdir:
  "os_path_exists (fold (\<lambda>q fs'. if os_path_exists fs' q then fs' else AList.update q Dir fs') qs fs) x
   \<Longrightarrow> os_path_exists fs x \<or> x \<in> set qs"
proof (induction qs arbitrary: fs)
  case Nil
  then show ?case by simp
next
  case (Cons q qs)
  from Cons.IH[OF Cons.prems[simplified]] show ?case
    by (auto split: if_splits dest: exists_update)
qed

lemma exists_try_makedirs:
  "os_path_exists (try_makedirs fs dest) x \<Longrightarrow> os_path_exists fs x \<or> prefix x dest"
  by (auto simp: try_makedirs_def os_makedirs_def split: if_splits dest!: exists_fold_mkdir)

lemma exists_copy_file:
  assumes "copy_file flt src dest delete_at_source overwrite fs file = Inr fs'
           \<or> copy_file flt src dest delete_at_source overwrite fs file = Inl (err, fs')"
    and "os_path_exists fs' x"
  shows "os_path_exists fs x \<or> x = dest @ [file]"
proof -
  have cp: "os_path_exists fs x \<or> x = dest @ [file]"
    if "shutil_copyfile flt fs (src @ [file]) (dest @ [file]) = Inr t
        \<or> shutil_copyfile flt fs (src @ [file]) (dest @ [file]) = Inl (e, t)"
      and "os_path_exists t x" for t e
    using that
    by (auto simp: shutil_copyfile_def split: if_splits option.splits entry.splits
             dest: exists_update)
  have rm: "os_path_exists t x"
    if "os_remove t p = Inr t' \<or> os_remove t p = Inl (e, t')"
      and "os_path_exists t' x" for t t' p e
    using that
    by (auto simp: os_remove_def split: option.splits entry.splits dest: exists_delete)
  from assms(1) consider
      (skip) "fs' = fs"
    | (copied) "shutil_copyfile flt fs (src @ [file]) (dest @ [file]) = Inr fs'
                \<or> shutil_copyfile flt fs (src @ [file]) (dest @ [file]) = Inl (err, fs')"
    | (removed) t where "shutil_copyfile flt fs (src @ [file]) (dest @ [file]) = Inr t"
        "os_remove t (src @ [file]) = Inr fs' \<or> os_remove t (src @ [file]) = Inl (err, fs')"
    by (auto simp: copy_file_def split: if_splits sum.splits)
  then show ?thesis
  proof cases
    case skip
    with assms(2) show ?thesis by simp
  next
    case copied
    from cp[OF copied assms(2)] show ?thesis .
  next
    case removed
    from rm[OF removed(2) assms(2)] have "os_path_exists t x" .
    with cp[of t err] removed(1) show ?thesis by blast
  qed
qed

lemma exists_copy_files:
  assumes "copy_files flt fs src files dest delete_at_source overwrite = Inr fs'
           \<or> copy_files flt fs src files dest delete_at_source overwrite = Inl (err, fs')"
    and "os_path_exists fs' x"
  shows "os_path_exists fs x \<or> prefix x dest \<or> (\<exists>f\<in>set files. x = dest @ [f])"
proof -
  define I where "I = (\<lambda>t. os_path_exists t x
      \<longrightarrow> os_path_exists fs x \<or> prefix x dest \<or> (\<exists>f\<in>set files. x = dest @ [f]))"
  have "I fs'"
  proof (rule for_each_invariant[where I = I and e = err])
    show "for_each (copy_file flt src dest delete_at_source overwrite) files (try_makedirs fs dest) = Inr fs'
          \<or> for_each (copy_file flt src dest delete_at_source overwrite) files (try_makedirs fs dest)
              = Inl (err, fs')"
      using assms(1) by (simp add: copy_files_def)
    show "I (try_makedirs fs dest)"
      unfolding I_def using exists_try_makedirs by blast
  next
    fix y s s' e'
    assume "y \<in> set files" "I s"
      and "copy_file flt src dest delete_at_source overwrite s y = Inr s'
           \<or> copy_file flt src dest delete_at_source overwrite s y = Inl (e', s')"
    then show "I s'"
      unfolding I_def using exists_copy_file by blast
  qed
  with assms(2) show ?thesis
    by (simp add: I_def)
qed

lemma exists_copy_class_folders:
  assumes "copy_class_folders flt fs src d dest = Inr fs'
           \<or> copy_class_folders flt fs src d dest = Inl (err, fs')"
    and "os_path_exists fs' x"
  shows "os_path_exists fs x
         \<or> (\<exists>(cls, fl)\<in>set d. prefix x (dest @ [cls])
                \<or> (\<exists>g\<in>set fl. x = dest @ [cls, os_path_basename g]))"
proof -
  define I where "I = (\<lambda>t. os_path_exists t x
      \<longrightarrow> os_path_exists fs x
         \<or> (\<exists>(cls, fl)\<in>set d. prefix x (dest @ [cls])
                \<or> (\<exists>g\<in>set fl. x = dest @ [cls, os_path_basename g])))"
  have "I fs'"
  proof (rule for_each_invariant[where I = I and e = err])
    show "for_each (\<lambda>fs' (cls, files).
                 copy_files flt fs' src (map os_path_basename files) (dest @ [cls]) False False) d fs
            = Inr fs'
          \<or> for_each (\<lambda>fs' (cls, files).
                 copy_files flt fs' src (map os_path_basename files) (dest @ [cls]) False False) d fs
            = Inl (err, fs')"
      using assms(1) by (simp add: copy_class_folders_def)
    show "I fs" by (simp add: I_def)
  next
    fix y s s' e'
    assume y: "y \<in> set d" and i: "I s"
      and b: "(case y of (cls, files) \<Rightarrow>
                 copy_files flt s src (map os_path_basename files) (dest @ [cls]) False False) = Inr s'
           \<or> (case y of (cls, files) \<Rightarrow>
                 copy_files flt s src (map os_path_basename files) (dest @ [cls]) False False) = Inl (e', s')"
    obtain cls fl where yc: "y = (cls, fl)" by (cases y)
    show "I s'"
      unfolding I_def
    proof
      assume "os_path_exists s' x"
      with b have "os_path_exists s x \<or> prefix x (dest @ [cls])
                   \<or> (\<exists>f\<in>set (map os_path_basename fl). x = (dest @ [cls]) @ [f])"
        unfolding yc prod.case by (rule exists_copy_files)
      then show "os_path_exists fs x
         \<or> (\<exists>(cls, fl)\<in>set d. prefix x (dest @ [cls])
                \<or> (\<exists>g\<in>set fl. x = dest @ [cls, os_path_basename g]))"
        using i y unfolding I_def yc by auto
    qed
  qed
  with assms(2) show ?thesis
    by (simp add: I_def)
qed

text \<open>
  C10. When \<open>classify_files\<close> returns, a file whose annotation has no object is in no
  normal bucket and in no abnormal bucket; and a copy loop of \<open>copy_sixray_folder_split\<close>
  over either mapping, whether it returns or raises, creates no file with the name of that
  file in any class folder of its destination.
\<close>

theorem empty_annotation_in_no_bucket:
  assumes "classify_files et fs xml_dir files anomaly_classes = Inr (normal_files, abnormal_files)"
    and "parse_voc_xml et fs (xml_dir @ [xml_name file]) = Inr a" and "objects a = []"
    and "d = normal_files \<or> d = abnormal_files"
    and "copy_class_folders flt fs0 src d dest = Inr fs'
         \<or> copy_class_folders flt fs0 src d dest = Inl (err, fs')"
    and "\<not> os_path_exists fs0 (dest @ [cls, os_path_basename file])"
  shows "file \<notin> set (bucket normal_files cls) \<and> file \<notin> set (bucket abnormal_files cls)
         \<and> \<not> os_path_exists fs' (dest @ [cls, os_path_basename file])"
proof -
  have u: "unique_cls et fs xml_dir file = {}"
    by (simp add: unique_cls_def assms(2,3))
  have loop: "for_each (classify_file et fs xml_dir anomaly_classes) files ([], [])
                = Inr (normal_files, abnormal_files)"
    using assms(1) by (simp add: classify_files_def)
  have "bucket [] cls = []"
    by (simp add: bucket_def)
  with classify_loop_buckets[OF loop, of cls] u
  have b: "file \<notin> set (bucket normal_files cls)" "file \<notin> set (bucket abnormal_files cls)"
    by auto
  have "\<not> os_path_exists fs' (dest @ [cls, os_path_basename file])"
  proof
    assume "os_path_exists fs' (dest @ [cls, os_path_basename file])"
    from exists_copy_class_folders[OF assms(5) this] assms(6)
    obtain c fl where m: "(c, fl) \<in> set d"
      and x: "prefix (dest @ [cls, os_path_basename file]) (dest @ [c])
              \<or> (\<exists>g\<in>set fl. dest @ [cls, os_path_basename file] = dest @ [c, os_path_basename g])"
      by auto
    have "\<not> prefix (dest @ [cls, os_path_basename file]) (dest @ [c])"
      by (auto dest: prefix_length_le)
    with x obtain g where g: "g \<in> set fl" "c = cls" "os_path_basename g = os_path_basename file"
      by auto
    from m assms(4) have "(c, fl) \<in> set normal_files \<or> (c, fl) \<in> set abnormal_files"
      by auto
    from classify_files_entries[OF assms(1) this g(1)]
    have "c \<in> unique_cls et fs xml_dir g" .
    moreover have "unique_cls et fs xml_dir g = unique_cls et fs xml_dir file"
      using g(3) by (simp add: unique_cls_def xml_name_def)
    ultimately show False
      using u by simp
  qed
  with b show ?thesis by simp
qed

theorem empty_annotation_in_no_bucket_witness:
  "[''img'', ''e.jpg''] \<notin> set (bucket [(''knife'', [[''img'', ''k.jpg'']])] ''knife'')
   \<and> [''img'', ''e.jpg''] \<notin> set (bucket [] ''knife'')
   \<and> \<not> os_path_exists
        [([''xml'', ''e.xml''], File ''E''), ([''xml'', ''k.xml''], File ''B''), ([''img''], Dir),
         ([''img'', ''e.jpg''], File ''ie''), ([''img'', ''k.jpg''], File ''ik''), ([''data''], Dir),
         ([''data'', ''normal''], Dir), ([''data'', ''normal'', ''knife''], Dir),
         ([''data'', ''normal'', ''knife'', ''k.jpg''], File ''ik'')]
        ([''data'', ''normal''] @ [''knife'', os_path_basename [''img'', ''e.jpg'']])"
proof -
  let ?et = "\<lambda>s. if s = ''E'' then Some \<lparr>filename = ''e.jpg'', width = 100, height = 100, depth = 3,
                 objects = []\<rparr>
          else if s = ''B'' then Some \<lparr>filename = ''k.jpg'', width = 100, height = 100, depth = 3,
                 objects = [\<lparr>name = ''knife'', bbox = \<lparr>xmin = 2, ymin = 2, xmax = 5, ymax = 5\<rparr>\<rparr>]\<rparr>
          else None"
  let ?fs = "[([''xml'', ''e.xml''], File ''E''), ([''xml'', ''k.xml''], File ''B''), ([''img''], Dir),
         ([''img'', ''e.jpg''], File ''ie''), ([''img'', ''k.jpg''], File ''ik'')]"
  let ?fs' = "[([''xml'', ''e.xml''], File ''E''), ([''xml'', ''k.xml''], File ''B''), ([''img''], Dir),
         ([''img'', ''e.jpg''], File ''ie''), ([''img'', ''k.jpg''], File ''ik''), ([''data''], Dir),
         ([''data'', ''normal''], Dir), ([''data'', ''normal'', ''knife''], Dir),
         ([''data'', ''normal'', ''knife'', ''k.jpg''], File ''ik'')]"
  let ?a = "\<lparr>filename = ''e.jpg'', width = 100, height = 100, depth = 3, objects = []\<rparr>"
  have h1: "classify_files ?et ?fs [''xml''] [[''img'', ''e.jpg''], [''img'', ''k.jpg'']] [''gun'']
              = Inr ([(''knife'', [[''img'', ''k.jpg'']])], [])"
    by code_simp
  have h2: "parse_voc_xml ?et ?fs ([''xml''] @ [xml_name [''img'', ''e.jpg'']]) = Inr ?a"
    by code_simp
  have h3: "objects ?a = []"
    by simp
  have h4: "[(''knife'', [[''img'', ''k.jpg'']])] = [(''knife'', [[''img'', ''k.jpg'']])]
            \<or> [(''knife'', [[''img'', ''k.jpg'']])] = ([] :: buckets)"
    by simp
  have h5: "copy_class_folders (\<lambda>p. None) ?fs [''img''] [(''knife'', [[''img'', ''k.jpg'']])]
                [''data'', ''normal''] = Inr ?fs'
            \<or> copy_class_folders (\<lambda>p. None) ?fs [''img''] [(''knife'', [[''img'', ''k.jpg'']])]
                [''data'', ''normal''] = Inl (OSError, ?fs')"
    by code_simp
  have h6: "\<not> os_path_exists ?fs ([''data'', ''normal''] @ [''knife'', os_path_basename [''img'', ''e.jpg'']])"
    by code_simp
  from empty_annotation_in_no_bucket[OF h1 h2 h3 h4 h5 h6]
  show ?thesis .
qed

end
